theory Spec2Isabelle
  imports Main "HOL-Library.Word"
begin

unbundle bit_operations_syntax

section \<open>Buffers and the format sniffer (detectImageFormat, lines 17-58)\<close>

type_synonym byte = "8 word"

text \<open>
  A Node.js \<open>Buffer\<close> is a byte array. Reading \<open>buffer[i]\<close> beyond the end gives
  \<open>undefined\<close> (here \<open>None\<close>), which is \<open>!==\<close> every number; nothing is raised.
\<close>

definition at :: "byte list \<Rightarrow> nat \<Rightarrow> byte option" where
  "at buffer i = (if i < length buffer then Some (buffer ! i) else None)"

text \<open>
  \<open>buffer.toString('ascii', start, end)\<close>: the bytes from \<open>start\<close> up to \<open>end\<close>
  (both clamped to the buffer), each with its highest bit cleared, as characters.
\<close>

definition toString_ascii :: "byte list \<Rightarrow> nat \<Rightarrow> nat \<Rightarrow> string" where
  "toString_ascii buffer start end' =
     map (\<lambda>b. char_of (unat (b AND 0x7F))) (take (end' - start) (drop start buffer))"

text \<open>
  The body of the \<open>try\<close> block of \<open>detectImageFormat\<close> after the read, lines 22-53: the
  chain of signature checks in the source's order. \<open>None\<close> is the source's \<open>null\<close>.
\<close>

definition sniff :: "byte list \<Rightarrow> string option" where
  "sniff buffer =
     (if at buffer 0 = Some 0x47 \<and> at buffer 1 = Some 0x49 \<and> at buffer 2 = Some 0x46
        then Some ''gif''
      else if at buffer 0 = Some 0xFF \<and> at buffer 1 = Some 0xD8 \<and> at buffer 2 = Some 0xFF
        then Some ''jpg''
      else if at buffer 0 = Some 0x89 \<and> at buffer 1 = Some 0x50 \<and> at buffer 2 = Some 0x4E
              \<and> at buffer 3 = Some 0x47
        then Some ''png''
      else if toString_ascii buffer 0 4 = ''RIFF'' \<and> toString_ascii buffer 8 12 = ''WEBP''
        then Some ''webp''
      else if at buffer 0 = Some 0x42 \<and> at buffer 1 = Some 0x4D
        then Some ''bmp''
      else if (at buffer 0 = Some 0x49 \<and> at buffer 1 = Some 0x49 \<and> at buffer 2 = Some 0x2A
                 \<and> at buffer 3 = Some 0x00)
              \<or> (at buffer 0 = Some 0x4D \<and> at buffer 1 = Some 0x4D \<and> at buffer 2 = Some 0x00
                 \<and> at buffer 3 = Some 0x2A)
        then Some ''tiff''
      else None)"

section \<open>File names: getFileExtension (lines 65-67) and the new name (line 111)\<close>

text \<open>
  File names are the entry names that \<open>readdir\<close> returns: strings without a path
  separator. \<open>String.prototype.toLowerCase\<close> maps the letters A-Z to a-z; no other character
  has a lower-case form among the letters of the recognised extensions, so on every other
  character the model is the identity.
\<close>

definition toLowerCase :: "string \<Rightarrow> string" where
  "toLowerCase s =
     map (\<lambda>c. if 65 \<le> (of_char c :: nat) \<and> (of_char c :: nat) \<le> 90
               then char_of ((of_char c :: nat) + 32) else c) s"

definition afterLastDot :: "string \<Rightarrow> string" where
  "afterLastDot p = rev (takeWhile (\<lambda>c. c \<noteq> CHR ''.'') (rev p))"

definition beforeLastDot :: "string \<Rightarrow> string" where
  "beforeLastDot p = take (length p - length (afterLastDot p) - 1) p"

text \<open>
  \<open>path.extname\<close> of Node.js on an entry name: the part from the last dot to the end; empty
  when the name has no dot, when its last dot is its first character, and for \<open>..\<close>.
\<close>

definition extname :: "string \<Rightarrow> string" where
  "extname p =
     (if CHR ''.'' \<in> set p then
        (if beforeLastDot p = [] then []
         else if p = ''..'' then []
         else CHR ''.'' # afterLastDot p)
      else [])"

definition substring1 :: "string \<Rightarrow> string" where
  "substring1 s = drop 1 s"

definition getFileExtension :: "string \<Rightarrow> string" where
  "getFileExtension filePath = substring1 (toLowerCase (extname filePath))"

text \<open>
  Line 111, \<open>file.replace(/\.[^.]+$/, `.${actualFormat}`)\<close>: the pattern matches a dot
  followed by one or more non-dot characters up to the end of the name, that is the last dot
  and what follows it when something follows it; a name without such a match is returned
  unchanged. The format tags contain no \<open>$\<close>, so the replacement is taken literally.
\<close>

definition replaceExtension :: "string \<Rightarrow> string \<Rightarrow> string" where
  "replaceExtension file actualFormat =
     (if CHR ''.'' \<in> set file \<and> afterLastDot file \<noteq> []
      then beforeLastDot file @ ''.'' @ actualFormat
      else file)"

definition imageExtensions :: "string list" where
  "imageExtensions = [''jpg'', ''jpeg'', ''gif'', ''png'', ''webp'', ''bmp'', ''tiff'']"

text \<open>Lines 106-108.\<close>

definition needsRename :: "string \<Rightarrow> string \<Rightarrow> bool" where
  "needsRename currentExtension actualFormat =
     (currentExtension \<noteq> actualFormat
      \<and> \<not> (currentExtension = ''jpeg'' \<and> actualFormat = ''jpg'')
      \<and> \<not> (currentExtension = ''jpg'' \<and> actualFormat = ''jpg''))"

section \<open>The target directory, the console and the file-system calls\<close>

text \<open>
  What a name of the target directory can hold: a regular file with its bytes and whether
  the process may read them, something that is not a regular file (a subdirectory, a
  device), or a symbolic link to another name of the directory. A link to a name that the
  directory does not hold is dangling.
\<close>

datatype node = File (content: "byte list") (readable: bool) | Other | Link string

datatype io_error = ENOENT | EACCES | EISDIR | ELOOP

datatype level = ConsoleLog | ConsoleWarn | ConsoleError

text \<open>One constructor for each line the program prints, with the values it interpolates.\<close>

datatype message =
    ReadFileFailed string
  | CannotDetect string
  | TargetExists string string
  | Renamed string string string string
  | FormatCorrect string string
  | ProcessFileFailed string
  | ReadDirFailed
  | Started
  | Summary nat nat nat

fun level_of :: "message \<Rightarrow> level" where
  "level_of (ReadFileFailed f) = ConsoleError"
| "level_of (CannotDetect f) = ConsoleWarn"
| "level_of (TargetExists f n) = ConsoleWarn"
| "level_of (Renamed f n c a) = ConsoleLog"
| "level_of (FormatCorrect f a) = ConsoleLog"
| "level_of (ProcessFileFailed f) = ConsoleError"
| "level_of ReadDirFailed = ConsoleError"
| "level_of Started = ConsoleLog"
| "level_of (Summary p r e) = ConsoleLog"

text \<open>
  The state the program acts on: the target directory (whether it can be listed, whether
  entries can be renamed in it, its entries in the order \<open>readdir\<close> reports them), the lines
  printed so far, and the names whose contents have been requested with \<open>readFile\<close>.
\<close>

record world =
  listable :: bool
  writable :: bool
  entries :: "(string \<times> node) list"
  console :: "message list"
  opened :: "string list"

record stats =
  processed :: nat
  renamed :: nat
  errors :: nat

definition emit :: "message \<Rightarrow> world \<Rightarrow> world" where
  "emit m w = w\<lparr>console := console w @ [m]\<rparr>"

definition readdir :: "world \<Rightarrow> io_error + string list" where
  "readdir w = (if listable w then Inr (map fst (entries w)) else Inl ENOENT)"

text \<open>
  Path resolution: a link is followed to the name it points to, at most \<open>n\<close> links in a
  row. The result is never a link.
\<close>

fun follow :: "nat \<Rightarrow> (string \<times> node) list \<Rightarrow> string \<Rightarrow> io_error + node" where
  "follow 0 es p =
     (case map_of es p of
        None \<Rightarrow> Inl ENOENT
      | Some nd \<Rightarrow> (case nd of Link t \<Rightarrow> Inl ELOOP | _ \<Rightarrow> Inr nd))"
| "follow (Suc n) es p =
     (case map_of es p of
        None \<Rightarrow> Inl ENOENT
      | Some nd \<Rightarrow> (case nd of Link t \<Rightarrow> follow n es t | _ \<Rightarrow> Inr nd))"

text \<open>The number of links that the system follows before it gives up with \<open>ELOOP\<close>.\<close>

definition maxLinks :: nat where
  "maxLinks = 40"

text \<open>\<open>fs.stat\<close> follows links: it reports on what the path resolves to.\<close>

definition stat :: "string \<Rightarrow> world \<Rightarrow> io_error + node" where
  "stat p w = follow maxLinks (entries w) p"

definition isFile :: "node \<Rightarrow> bool" where
  "isFile nd = (case nd of File c r \<Rightarrow> True | _ \<Rightarrow> False)"

text \<open>
  \<open>fs.readFile\<close> resolves the path as \<open>stat\<close> does. It takes no \<open>start\<close> or \<open>end\<close> option
  (line 20 passes them, and they are ignored): the buffer is the whole content of the file.
\<close>

definition readFile :: "string \<Rightarrow> world \<Rightarrow> (io_error + byte list) \<times> world" where
  "readFile p w =
     (let w' = w\<lparr>opened := opened w @ [p]\<rparr> in
      case stat p w of
        Inl error \<Rightarrow> (Inl error, w')
      | Inr nd \<Rightarrow>
          (case nd of
             File c r \<Rightarrow> (if r then (Inr c, w') else (Inl EACCES, w'))
           | Other \<Rightarrow> (Inl EISDIR, w')
           | Link t \<Rightarrow> (Inl ELOOP, w')))"

text \<open>
  \<open>fs.rename\<close> inside the target directory does not follow links: the entry under the old
  name, a link included, moves to the new name and replaces the entry that was there; the
  bytes of files are not touched. It fails on a directory that cannot be written, on a
  missing old name, and on a new name that holds something other than a file or a link.
\<close>

definition rename :: "string \<Rightarrow> string \<Rightarrow> world \<Rightarrow> io_error + world" where
  "rename oldPath newPath w =
     (if \<not> writable w then Inl EACCES
      else case map_of (entries w) oldPath of
        None \<Rightarrow> Inl ENOENT
      | Some nd \<Rightarrow>
          if map_of (entries w) newPath = Some Other then Inl EISDIR
          else
            Inr (w\<lparr>entries :=
                   (newPath, nd)
                   # filter (\<lambda>e. fst e \<noteq> oldPath \<and> fst e \<noteq> newPath) (entries w)\<rparr>))"

section \<open>detectImageFormat (lines 17-58)\<close>

text \<open>The \<open>catch\<close> of lines 54-57 prints the failure and returns \<open>null\<close>.\<close>

definition detectImageFormat :: "string \<Rightarrow> world \<Rightarrow> string option \<times> world" where
  "detectImageFormat filePath w =
     (case readFile filePath w of
        (Inr buffer, w1) \<Rightarrow> (sniff buffer, w1)
      | (Inl error, w1) \<Rightarrow> (None, emit (ReadFileFailed filePath) w1))"

section \<open>processDirectory (lines 74-141) and main (lines 146-170)\<close>

text \<open>
  The callback of line 84 (lines 85-132) is an \<open>async\<close> function: it runs up to an
  \<open>await\<close>, and goes on when the awaited call has finished; in between, the other callbacks
  of the batch run. A task is a callback at one of its four \<open>await\<close>s, with the values of
  its local variables: the \<open>stat\<close> of line 88, \<open>detectImageFormat\<close> of line 99, the \<open>stat\<close>
  of line 116 and the \<open>rename\<close> of line 123.
\<close>

datatype task =
    AwaitStat string
  | AwaitDetect string string
  | AwaitTargetStat string string string string
  | AwaitRename string string string string
  | Finished

text \<open>
  One step of a task: the awaited call acts on the directory, and the callback runs up to
  its next \<open>await\<close> or to its end. An exception of \<open>stat\<close> (line 88) or of \<open>rename\<close> (line
  123) reaches the \<open>catch\<close> of line 129; the \<open>stat\<close> of line 116 has its own \<open>catch\<close>.
\<close>

fun step :: "task \<Rightarrow> world \<times> stats \<Rightarrow> task \<times> (world \<times> stats)" where
  "step (AwaitStat file) (w, st) =
     (case stat file w of
        Inl error \<Rightarrow>
          (Finished, (emit (ProcessFileFailed file) w, st\<lparr>errors := errors st + 1\<rparr>))
      | Inr fileStat \<Rightarrow>
          if \<not> isFile fileStat then (Finished, (w, st))
          else
            let currentExtension = getFileExtension file in
            if currentExtension \<notin> set imageExtensions then (Finished, (w, st))
            else (AwaitDetect file currentExtension, (w, st\<lparr>processed := processed st + 1\<rparr>)))"
| "step (AwaitDetect file currentExtension) (w, st) =
     (case detectImageFormat file w of
        (None, w1) \<Rightarrow> (Finished, (emit (CannotDetect file) w1, st))
      | (Some actualFormat, w1) \<Rightarrow>
          if needsRename currentExtension actualFormat then
            let newName = replaceExtension file actualFormat in
            (AwaitTargetStat file currentExtension actualFormat newName, (w1, st))
          else (Finished, (emit (FormatCorrect file actualFormat) w1, st)))"
| "step (AwaitTargetStat file currentExtension actualFormat newName) (w, st) =
     (case stat newName w of
        Inr targetStat \<Rightarrow> (Finished, (emit (TargetExists file newName) w, st))
      | Inl error \<Rightarrow> (AwaitRename file currentExtension actualFormat newName, (w, st)))"
| "step (AwaitRename file currentExtension actualFormat newName) (w, st) =
     (case rename file newName w of
        Inl error \<Rightarrow>
          (Finished, (emit (ProcessFileFailed file) w, st\<lparr>errors := errors st + 1\<rparr>))
      | Inr w1 \<Rightarrow>
          (Finished,
           (emit (Renamed file newName currentExtension actualFormat) w1,
            st\<lparr>renamed := renamed st + 1\<rparr>)))"
| "step Finished s = (Finished, s)"

text \<open>
  The callback run from its start to its end with no other callback in between: at most
  four steps.
\<close>

definition processFile :: "string \<Rightarrow> world \<times> stats \<Rightarrow> world \<times> stats" where
  "processFile file s =
     (case step (AwaitStat file) s of
        (t1, s1) \<Rightarrow>
          (case step t1 s1 of
             (t2, s2) \<Rightarrow>
               (case step t2 s2 of
                  (t3, s3) \<Rightarrow> snd (step t3 s3))))"

definition batchSize :: nat where
  "batchSize = 10"

definition slice :: "'a list \<Rightarrow> nat \<Rightarrow> nat \<Rightarrow> 'a list" where
  "slice xs start end' = take (end' - start) (drop start xs)"

text \<open>
  Line 84, \<open>await Promise.all(batch.map(...))\<close>: every callback of the batch is started, and
  the callbacks take their steps interleaved, in an order that the program does not fix. A
  schedule is a list of positions in the batch: the callback at that position takes its
  next step. When the schedule is used up, the callbacks take their remaining steps in
  rounds, each pending callback one step per round; four rounds end every callback. The
  empty schedule is the run in which the batch moves in step: all the calls of line 88,
  then all the reads, then all the checks of line 116, then all the renames.
\<close>

fun stepAt :: "nat \<Rightarrow> task list \<times> (world \<times> stats) \<Rightarrow> task list \<times> (world \<times> stats)" where
  "stepAt i (ts, s) =
     (if i < length ts
      then (case step (ts ! i) s of (t, s') \<Rightarrow> (ts[i := t], s'))
      else (ts, s))"

definition oneRound :: "task list \<times> (world \<times> stats) \<Rightarrow> task list \<times> (world \<times> stats)" where
  "oneRound c = fold stepAt [0..<length (fst c)] c"

definition runBatch ::
  "nat list \<Rightarrow> task list \<times> (world \<times> stats) \<Rightarrow> task list \<times> (world \<times> stats)" where
  "runBatch schedule c = oneRound (oneRound (oneRound (oneRound (fold stepAt schedule c))))"

definition processBatch :: "nat list \<Rightarrow> string list \<Rightarrow> world \<times> stats \<Rightarrow> world \<times> stats" where
  "processBatch schedule batch s = snd (runBatch schedule (map AwaitStat batch, s))"

text \<open>
  The loop of lines 82-134; \<open>schedules i\<close> is the schedule of the batch that starts at
  index \<open>i\<close>. A batch is awaited before the next one starts.
\<close>

function batchLoop ::
  "(nat \<Rightarrow> nat list) \<Rightarrow> nat \<Rightarrow> string list \<Rightarrow> world \<times> stats \<Rightarrow> world \<times> stats" where
  "batchLoop schedules i files s =
     (if i < length files
      then batchLoop schedules (i + batchSize) files
             (processBatch (schedules i) (slice files i (i + batchSize)) s)
      else s)"
  by pat_completeness auto
termination
  by (relation "measure (\<lambda>(schedules, i, files, s). length files - i)") (auto simp: batchSize_def)

definition processDirectory :: "(nat \<Rightarrow> nat list) \<Rightarrow> world \<Rightarrow> world \<times> stats" where
  "processDirectory schedules w =
     (let st = \<lparr>processed = 0, renamed = 0, errors = 0\<rparr> in
      case readdir w of
        Inr files \<Rightarrow> batchLoop schedules 0 files (w, st)
      | Inl error \<Rightarrow> (emit ReadDirFailed w, st\<lparr>errors := errors st + 1\<rparr>))"

text \<open>
  \<open>main\<close> awaits \<open>processDirectory\<close> and prints the summary; \<open>Inl\<close> would be a rejection of
  its promise, which the handler of lines 166-169 turns into exit code 1. A promise that
  resolves lets the process end with exit code 0.
\<close>

definition main :: "(nat \<Rightarrow> nat list) \<Rightarrow> world \<Rightarrow> io_error + world" where
  "main schedules w =
     (case processDirectory schedules (emit Started w) of
        (w1, st) \<Rightarrow> Inr (emit (Summary (processed st) (renamed st) (errors st)) w1))"

definition exitCode :: "(nat \<Rightarrow> nat list) \<Rightarrow> world \<Rightarrow> nat" where
  "exitCode schedules w = (case main schedules w of Inl error \<Rightarrow> 1 | Inr w1 \<Rightarrow> 0)"

text \<open>The schedule in which every batch moves in step.\<close>

definition inStep :: "nat \<Rightarrow> nat list" where
  "inStep i = []"

text \<open>
  The number of leading bytes that the check of each format looks at (lines 23, 28, 33, 38,
  43 and 48-49).
\<close>

definition signatureLength :: "string \<Rightarrow> nat" where
  "signatureLength fmt =
     (if fmt = ''gif'' then 3 else if fmt = ''jpg'' then 3 else if fmt = ''png'' then 4
      else if fmt = ''webp'' then 12 else if fmt = ''bmp'' then 2 else if fmt = ''tiff'' then 4
      else 0)"

section \<open>Measures on tasks\<close>

text \<open>The number of steps that a task can still take.\<close>

fun stepsLeft :: "task \<Rightarrow> nat" where
  "stepsLeft (AwaitStat f) = 4"
| "stepsLeft (AwaitDetect f c) = 3"
| "stepsLeft (AwaitTargetStat f c a n) = 2"
| "stepsLeft (AwaitRename f c a n) = 1"
| "stepsLeft Finished = 0"

text \<open>
  Whether a task has gone through the increment of \<open>processed\<close> (line 97) and can still
  reach the increment of \<open>renamed\<close> (line 125).
\<close>

fun inFlight :: "task \<Rightarrow> nat" where
  "inFlight (AwaitDetect f c) = 1"
| "inFlight (AwaitTargetStat f c a n) = 1"
| "inFlight (AwaitRename f c a n) = 1"
| "inFlight t = 0"

text \<open>
  The entry that a running task works on.
\<close>

fun taskName :: "task \<Rightarrow> string option" where
  "taskName (AwaitStat f) = Some f"
| "taskName (AwaitDetect f c) = Some f"
| "taskName (AwaitTargetStat f c a n) = Some f"
| "taskName (AwaitRename f c a n) = Some f"
| "taskName Finished = None"

section \<open>Example directories\<close>

text \<open>
  Contents of files for the examples: the first bytes of a JPEG, of a GIF89a, of a GIF87a
  and of a PNG file.
\<close>

definition jpegHeader :: "byte list" where
  "jpegHeader = [0xFF, 0xD8, 0xFF, 0xE0]"

definition gifHeader :: "byte list" where
  "gifHeader = [0x47, 0x49, 0x46, 0x38, 0x39, 0x61]"

definition gif87Header :: "byte list" where
  "gif87Header = [0x47, 0x49, 0x46, 0x38, 0x37, 0x61]"

definition pngHeader :: "byte list" where
  "pngHeader = [0x89, 0x50, 0x4E, 0x47, 0x0D, 0x0A, 0x1A, 0x0A]"

text \<open>
  A directory that can be listed and written, with nothing printed yet.
\<close>

definition directory :: "(string \<times> node) list \<Rightarrow> world" where
  "directory es = \<lparr>listable = True, writable = True, entries = es, console = [], opened = []\<rparr>"

definition noStats :: stats where
  "noStats = \<lparr>processed = 0, renamed = 0, errors = 0\<rparr>"

text \<open>
  The directory of the end-to-end scenario of the specification: a real JPEG \<open>x.jpg\<close>, GIF
  content in \<open>y.jpg\<close>, and a \<open>z.png\<close> that the process may not read.
\<close>

definition scenarioXYZ :: world where
  "scenarioXYZ = directory
     [(''x.jpg'', File jpegHeader True), (''y.jpg'', File gifHeader True),
      (''z.png'', File pngHeader False)]"

text \<open>
  A directory that cannot be listed.
\<close>

definition unlistable :: world where
  "unlistable = (directory [])\<lparr>listable := False\<rparr>"

text \<open>
  A directory whose only entry is a link named \<open>d.txt\<close> to a name that does not exist.
\<close>

definition danglingTxt :: world where
  "danglingTxt = directory [(''d.txt'', Link ''gone.txt'')]"

text \<open>
  PNG content in \<open>c.jpg\<close>, next to a \<open>c.png\<close>.
\<close>

definition collisionC :: world where
  "collisionC = directory [(''c.jpg'', File pngHeader True), (''c.png'', File pngHeader True)]"

text \<open>
  PNG content in \<open>c.jpg\<close>, next to a \<open>c.png\<close> that is a dangling link.
\<close>

definition danglingTarget :: world where
  "danglingTarget = directory [(''c.jpg'', File pngHeader True), (''c.png'', Link ''gone.png'')]"

text \<open>
  Two files with GIF content and the same stem, \<open>a.jpg\<close> and \<open>a.png\<close>: both are to be
  renamed to \<open>a.gif\<close>.
\<close>

definition siblings :: world where
  "siblings = directory [(''a.jpg'', File gifHeader True), (''a.png'', File gif87Header True)]"

text \<open>
  The schedule in which the first callback of a batch runs to its end before the others
  move.
\<close>

definition firstAlone :: "nat \<Rightarrow> nat list" where
  "firstAlone i = [0, 0, 0, 0]"

text \<open>
  GIF content in \<open>a.jpg\<close> and a real JPEG \<open>b.jpeg\<close>.
\<close>

definition wrongJpg :: world where
  "wrongJpg = directory [(''a.jpg'', File gifHeader True), (''b.jpeg'', File jpegHeader True)]"


text \<open>
  Eleven entries, so two batches: PNG content in \<open>c.jpg\<close> in the first batch, GIF content
  in \<open>c.png\<close> in the second.
\<close>

definition twoBatches :: world where
  "twoBatches = directory
     ((''c.jpg'', File pngHeader True)
      # map (\<lambda>n. (n, File [0x68, 0x69] True))
          [''n1.txt'', ''n2.txt'', ''n3.txt'', ''n4.txt'', ''n5.txt'', ''n6.txt'', ''n7.txt'',
           ''n8.txt'', ''n9.txt'']
      @ [(''c.png'', File gifHeader True)])"

text \<open>
  A link \<open>x.png\<close> to \<open>y.gif\<close>, a name that only exists once \<open>y.jpg\<close> has been renamed.
\<close>

definition lateLink :: world where
  "lateLink = directory [(''x.png'', Link ''y.gif''), (''y.jpg'', File gifHeader True)]"

text \<open>
  The warning of line 117.
\<close>

fun isCollision :: "message \<Rightarrow> bool" where
  "isCollision (TargetExists f n) = True"
| "isCollision m = False"






section \<open>Invariants of a first and of a second run\<close>

text \<open>
  A directory without symbolic links.
\<close>

fun isLink :: "node \<Rightarrow> bool" where
  "isLink (Link t) = True"
| "isLink nd = False"

definition noLinks :: "world \<Rightarrow> bool" where
  "noLinks w = list_all (\<lambda>e. \<not> isLink (snd e)) (entries w)"

text \<open>
  An entry is pending when the callback would rename it: a readable regular file with a
  recognised extension and a detected format for which the condition of lines 106-108 holds.
\<close>

definition pending :: "string \<Rightarrow> node \<Rightarrow> bool" where
  "pending name nd =
     (case nd of
        File c r \<Rightarrow>
          r \<and> getFileExtension name \<in> set imageExtensions
          \<and> (case sniff c of None \<Rightarrow> False
               | Some actualFormat \<Rightarrow> needsRename (getFileExtension name) actualFormat)
      | _ \<Rightarrow> False)"

text \<open>
  The names that are still to be processed in a run: those of the running tasks and those of
  the batches to come (\<open>rest\<close>).
\<close>

definition live :: "task list \<Rightarrow> string list \<Rightarrow> string set" where
  "live ts rest = {n. (\<exists>i<length ts. taskName (ts ! i) = Some n) \<or> n \<in> set rest}"

text \<open>
  What a running task knows about its entry, given the names \<open>L\<close> that are still to be
  processed and the entries \<open>es\<close> of the directory: its local variables hold the extension of
  the name, the new name and the format detected in the content; past the check of line 116
  the new name is not one that is still to be processed.
\<close>

definition taskOK :: "string set \<Rightarrow> (string \<times> node) list \<Rightarrow> task \<Rightarrow> bool" where
  "taskOK L es t =
     (case t of
        AwaitStat f \<Rightarrow> True
      | AwaitDetect f c \<Rightarrow> c = getFileExtension f \<and> c \<in> set imageExtensions
      | AwaitTargetStat f c a n \<Rightarrow>
          c = getFileExtension f \<and> c \<in> set imageExtensions \<and> n = replaceExtension f a
          \<and> needsRename c a \<and> (\<exists>b. map_of es f = Some (File b True) \<and> sniff b = Some a)
      | AwaitRename f c a n \<Rightarrow>
          c = getFileExtension f \<and> c \<in> set imageExtensions \<and> n = replaceExtension f a
          \<and> needsRename c a \<and> (\<exists>b. map_of es f = Some (File b True) \<and> sniff b = Some a)
          \<and> n \<notin> L \<and> map_of es n \<noteq> Some Other
      | Finished \<Rightarrow> True)"

text \<open>
  No two running tasks work on the same name, and none works on a name of a batch to come.
\<close>

definition uniqueNames :: "task list \<Rightarrow> string list \<Rightarrow> bool" where
  "uniqueNames ts rest =
     (\<forall>i<length ts. \<forall>n. taskName (ts ! i) = Some n \<longrightarrow>
        n \<notin> set rest \<and> (\<forall>j<length ts. taskName (ts ! j) = Some n \<longrightarrow> j = i))"

text \<open>
  The invariant of a run, without links, that has printed no warning of line 117: every name
  still to be processed is in the directory, every running task is as \<open>taskOK\<close> says, and
  every pending entry is still to be processed.
\<close>

definition orderly :: "string list \<Rightarrow> task list \<times> (world \<times> stats) \<Rightarrow> bool" where
  "orderly rest c =
     (case c of (ts, (w, st)) \<Rightarrow>
        noLinks w \<and> writable w \<and> distinct rest
        \<and> (\<forall>i<length ts. \<forall>n. taskName (ts ! i) = Some n \<longrightarrow>
              n \<notin> set rest \<and> (\<forall>j<length ts. taskName (ts ! j) = Some n \<longrightarrow> j = i))
        \<and> (\<forall>n\<in>live ts rest. map_of (entries w) n \<noteq> None)
        \<and> (\<forall>i<length ts. taskOK (live ts rest) (entries w) (ts ! i))
        \<and> (\<forall>n nd. map_of (entries w) n = Some nd \<and> pending n nd \<longrightarrow> n \<in> live ts rest))"

text \<open>
  The same between two batches, when no task runs.
\<close>

definition tidy :: "string list \<Rightarrow> world \<Rightarrow> bool" where
  "tidy names w =
     (noLinks w \<and> writable w \<and> distinct names
      \<and> (\<forall>n\<in>set names. map_of (entries w) n \<noteq> None)
      \<and> (\<forall>n nd. map_of (entries w) n = Some nd \<and> pending n nd \<longrightarrow> n \<in> set names))"

text \<open>
  No warning of line 117 has been printed (\<open>quiet\<close>), or one has (\<open>loud\<close>).
\<close>

definition quiet :: "task list \<times> (world \<times> stats) \<Rightarrow> bool" where
  "quiet c = (\<not> list_ex isCollision (console (fst (snd c))))"

definition loud :: "world \<times> stats \<Rightarrow> bool" where
  "loud s = list_ex isCollision (console (fst s))"

text \<open>
  A task that has not decided to rename.
\<close>

fun calm :: "task \<Rightarrow> bool" where
  "calm (AwaitStat f) = True"
| "calm (AwaitDetect f c) = (c = getFileExtension f \<and> c \<in> set imageExtensions)"
| "calm (AwaitTargetStat f c a n) = False"
| "calm (AwaitRename f c a n) = False"
| "calm Finished = True"

text \<open>
  The invariant of a run that renames nothing: the entries \<open>es\<close>, the flag \<open>wr\<close> and the
  count \<open>r\<close> of renames stay as they are; in a directory that can be written, no task has
  decided to rename.
\<close>

definition still ::
  "(string \<times> node) list \<Rightarrow> bool \<Rightarrow> nat \<Rightarrow> task list \<times> (world \<times> stats) \<Rightarrow> bool" where
  "still es wr r c =
     (case c of (ts, (w, st)) \<Rightarrow>
        entries w = es \<and> writable w = wr \<and> renamed st = r \<and> (wr \<longrightarrow> list_all calm ts))"

section \<open>Properties of the sniffer\<close>

lemma toString_ascii_length:
  "length (toString_ascii buffer start end') = min (end' - start) (length buffer - start)"
  by (simp add: toString_ascii_def min.commute)

lemma sniff_webp_length:
  assumes "toString_ascii buffer 8 12 = ''WEBP''"
  shows "12 \<le> length buffer"
proof -
  have "length (toString_ascii buffer 8 12) = 4"
    by (simp add: assms)
  then show ?thesis
    by (simp add: toString_ascii_length)
qed

lemma at_Some_length: "at buffer i = Some b \<Longrightarrow> i < length buffer"
  by (simp add: at_def split: if_splits)

lemma at_short: "length buffer \<le> i \<Longrightarrow> at buffer i = None"
  by (simp add: at_def)

lemma sniff_short: 
  assumes "length buffer < 2"
  shows "sniff buffer = None"
proof -
  have "toString_ascii buffer 8 12 \<noteq> ''WEBP''"
    using sniff_webp_length [of buffer] assms by auto
  moreover have "at buffer 1 = None"
    using assms by (simp add: at_short)
  ultimately show ?thesis
    by (simp add: sniff_def)
qed

lemma sniff_length_3:
  assumes "sniff buffer = Some ''gif'' \<or> sniff buffer = Some ''jpg''"
  shows "3 \<le> length buffer"
proof -
  from assms have "at buffer 2 = Some 0x46 \<or> at buffer 2 = Some 0xFF"
    by (simp add: sniff_def split: if_splits)
  then show ?thesis
    by (auto dest: at_Some_length)
qed

lemma sniff_length_4:
  assumes "sniff buffer = Some ''png'' \<or> sniff buffer = Some ''tiff''"
  shows "4 \<le> length buffer"
proof -
  from assms have "at buffer 3 = Some 0x47 \<or> at buffer 3 = Some 0x00 \<or> at buffer 3 = Some 0x2A"
    by (auto simp: sniff_def split: if_splits)
  then show ?thesis
    by (auto dest: at_Some_length)
qed

lemma sniff_length_12: "sniff buffer = Some ''webp'' \<Longrightarrow> 12 \<le> length buffer"
  by (simp add: sniff_def sniff_webp_length split: if_splits)

lemma sniff_length_2:
  assumes "sniff buffer = Some ''bmp''"
  shows "2 \<le> length buffer"
proof -
  from assms have "at buffer 1 = Some 0x4D"
    by (simp add: sniff_def split: if_splits)
  then show ?thesis
    by (auto dest: at_Some_length)
qed

lemma sniff_tags:
  "sniff buffer = Some fmt \<Longrightarrow> fmt \<in> {''gif'', ''jpg'', ''png'', ''webp'', ''bmp'', ''tiff''}"
  by (auto simp: sniff_def split: if_splits)

lemma signatureLength_simps:
  "signatureLength ''gif'' = 3" "signatureLength ''jpg'' = 3" "signatureLength ''png'' = 4"
  "signatureLength ''webp'' = 12" "signatureLength ''bmp'' = 2" "signatureLength ''tiff'' = 4"
  by (simp_all add: signatureLength_def)

lemma sniff_needs_signature:
  assumes "sniff buffer = Some fmt"
  shows "signatureLength fmt \<le> length buffer"
proof -
  have "fmt = ''gif'' \<or> fmt = ''jpg'' \<or> fmt = ''png'' \<or> fmt = ''webp'' \<or> fmt = ''bmp''
      \<or> fmt = ''tiff''"
    using sniff_tags [OF assms] by simp
  then show ?thesis
    using assms sniff_length_3 [of buffer] sniff_length_4 [of buffer] sniff_length_12 [of buffer]
      sniff_length_2 [of buffer]
    by (elim disjE) (simp_all only: signatureLength_simps simp_thms)
qed


text \<open>
  C6: every buffer that starts with the bytes 47 49 46 is classified as gif, whatever follows
  and however long it is.
\<close>

theorem sniff_gif_prefix: "sniff (0x47 # 0x49 # 0x46 # rest) = Some ''gif''"
  by (simp add: sniff_def at_def)

text \<open>
  C7: the sniffer has a result for every buffer, the empty one included: it is \<open>null\<close> or
  one of the six tags, and no step of it can raise. A buffer shorter than every signature
  (fewer than two bytes) gives \<open>null\<close>, and a tag is only returned for a buffer that is at
  least as long as the signature of that tag.
\<close>

theorem sniff_never_fails:
  "sniff buffer \<in> {None, Some ''gif'', Some ''jpg'', Some ''png'', Some ''webp'', Some ''bmp'', Some ''tiff''}
   \<and> (length buffer < 2 \<longrightarrow> sniff buffer = None)
   \<and> (\<forall>fmt. sniff buffer = Some fmt \<longrightarrow> signatureLength fmt \<le> length buffer)"
proof (intro conjI allI impI)
  show "sniff buffer \<in> {None, Some ''gif'', Some ''jpg'', Some ''png'', Some ''webp'', Some ''bmp'', Some ''tiff''}"
    by (simp add: sniff_def)
qed (simp_all add: sniff_short sniff_needs_signature)

theorem sniff_never_fails_witness:
  "sniff [] = None \<and> sniff [0x42] = None \<and> sniff [0x47, 0x49] = None
   \<and> sniff [0x42, 0x4D] = Some ''bmp'' \<and> signatureLength ''bmp'' \<le> length [0x42 :: byte, 0x4D]"
  using sniff_never_fails [of "[]"] sniff_never_fails [of "[0x42]"] sniff_never_fails [of "[0x42, 0x4D]"]
  by (simp add: sniff_def at_def toString_ascii_def signatureLength_def)

section \<open>File names\<close>

text \<open>
  A name with a dot splits at its last dot into a stem and what follows; the extension and
  the new name are read off this split.
\<close>

lemma afterLastDot_append:
  assumes "CHR ''.'' \<notin> set ext"
  shows "afterLastDot (stem @ CHR ''.'' # ext) = ext"
proof -
  have "takeWhile (\<lambda>c. c \<noteq> CHR ''.'') (rev ext @ CHR ''.'' # rev stem)
          = rev ext @ takeWhile (\<lambda>c. c \<noteq> CHR ''.'') (CHR ''.'' # rev stem)"
    using assms by (intro takeWhile_append2) auto
  then show ?thesis
    by (simp add: afterLastDot_def)
qed

lemma beforeLastDot_append:
  "CHR ''.'' \<notin> set ext \<Longrightarrow> beforeLastDot (stem @ CHR ''.'' # ext) = stem"
  by (simp add: beforeLastDot_def afterLastDot_append)

lemma last_dot_split:
  assumes "CHR ''.'' \<in> set p"
  shows "\<exists>stem ext. p = stem @ CHR ''.'' # ext \<and> CHR ''.'' \<notin> set ext"
  using assms by (rule split_list_last)

lemma dotdot_split:
  "CHR ''.'' \<notin> set ext \<Longrightarrow> (stem @ CHR ''.'' # ext = ''..'') = (stem = ''.'' \<and> ext = [])"
  by (cases stem) (auto simp: append_eq_Cons_conv)

lemma extname_append:
  "CHR ''.'' \<notin> set ext \<Longrightarrow>
     extname (stem @ CHR ''.'' # ext) =
       (if stem = [] \<or> (stem = ''.'' \<and> ext = []) then [] else CHR ''.'' # ext)"
  by (simp add: extname_def afterLastDot_append beforeLastDot_append dotdot_split)

lemma extname_no_dot: "CHR ''.'' \<notin> set p \<Longrightarrow> extname p = []"
  by (simp add: extname_def)

lemma toLowerCase_Nil_iff: "toLowerCase s = [] \<longleftrightarrow> s = []"
  by (simp add: toLowerCase_def)

lemma toLowerCase_dot: "toLowerCase (CHR ''.'' # s) = CHR ''.'' # toLowerCase s"
  by (simp add: toLowerCase_def)

lemma getFileExtension_append:
  "CHR ''.'' \<notin> set ext \<Longrightarrow>
     getFileExtension (stem @ CHR ''.'' # ext) = (if stem = [] then [] else toLowerCase ext)"
  by (auto simp: getFileExtension_def substring1_def extname_append toLowerCase_dot toLowerCase_def)

lemma getFileExtension_no_dot: "CHR ''.'' \<notin> set p \<Longrightarrow> getFileExtension p = []"
  by (simp add: getFileExtension_def substring1_def extname_no_dot toLowerCase_def)

lemma replaceExtension_append:
  "CHR ''.'' \<notin> set ext \<Longrightarrow> ext \<noteq> [] \<Longrightarrow>
     replaceExtension (stem @ CHR ''.'' # ext) fmt = stem @ CHR ''.'' # fmt"
  by (simp add: replaceExtension_def afterLastDot_append beforeLastDot_append)

lemma toLowerCase_tags:
  "fmt \<in> {''gif'', ''jpg'', ''png'', ''webp'', ''bmp'', ''tiff''} \<Longrightarrow> toLowerCase fmt = fmt \<and> CHR ''.'' \<notin> set fmt \<and> fmt \<noteq> []"
  by (auto simp: toLowerCase_def)

lemma recognised_split:
  assumes "getFileExtension file \<in> set imageExtensions"
  shows "\<exists>stem ext. file = stem @ CHR ''.'' # ext \<and> CHR ''.'' \<notin> set ext \<and> stem \<noteq> [] \<and> ext \<noteq> []"
proof -
  from assms have nonempty: "getFileExtension file \<noteq> []"
    by (auto simp: imageExtensions_def)
  then have "CHR ''.'' \<in> set file"
    using getFileExtension_no_dot [of "file"] by blast
  then obtain stem ext where split: "file = stem @ CHR ''.'' # ext" "CHR ''.'' \<notin> set ext"
    using last_dot_split by blast
  with nonempty have "stem \<noteq> []" "toLowerCase ext \<noteq> []"
    by (auto simp: getFileExtension_append split: if_splits)
  then have "stem \<noteq> []" "ext \<noteq> []"
    by (simp_all add: toLowerCase_Nil_iff)
  with split show ?thesis
    by blast
qed

lemma getFileExtension_tag:
  assumes "stem \<noteq> []" and "sniff c = Some fmt"
  shows "getFileExtension (stem @ CHR ''.'' # fmt) = fmt"
proof -
  have "toLowerCase fmt = fmt \<and> CHR ''.'' \<notin> set fmt \<and> fmt \<noteq> []"
    using assms(2) by (intro toLowerCase_tags sniff_tags)
  with assms(1) show ?thesis
    by (simp add: getFileExtension_append)
qed

lemma needsRename_irrefl: "\<not> needsRename fmt fmt"
  by (simp add: needsRename_def)


section \<open>Looking up entries\<close>

lemma follow_unfold:
  "follow n es p =
     (case map_of es p of
        None \<Rightarrow> Inl ENOENT
      | Some nd \<Rightarrow>
          (case nd of
             Link t \<Rightarrow> (if n = 0 then Inl ELOOP else follow (n - 1) es t)
           | _ \<Rightarrow> Inr nd))"
  by (cases n) (simp_all split: option.splits node.splits)

lemma follow_numeral:
  "follow (numeral k) es p =
     (case map_of es p of
        None \<Rightarrow> Inl ENOENT
      | Some nd \<Rightarrow> (case nd of Link t \<Rightarrow> follow (pred_numeral k) es t | _ \<Rightarrow> Inr nd))"
  by (simp add: numeral_eq_Suc)

lemma follow_not_Link: "follow n es p \<noteq> Inr (Link t)"
  by (induction n arbitrary: p) (auto split: option.splits node.splits)

lemma follow_Suc: "follow n es p = Inr nd \<Longrightarrow> follow (Suc n) es p = Inr nd"
proof (induction n arbitrary: p)
  case 0
  then show ?case
    by (auto split: option.splits node.splits)
next
  case (Suc n)
  show ?case
  proof (cases "\<exists>t. map_of es p = Some (Link t)")
    case True
    then obtain t where t: "map_of es p = Some (Link t)"
      by blast
    with Suc.prems have "follow n es t = Inr nd"
      by simp
    then have "follow (Suc n) es t = Inr nd"
      by (rule Suc.IH)
    with t show ?thesis
      by simp
  next
    case False
    with Suc.prems show ?thesis
      by (auto split: option.splits node.splits)
  qed
qed

lemma follow_mono:
  assumes "follow n es p = Inr nd" and "n \<le> m"
  shows "follow m es p = Inr nd"
  using assms(2,1) by (induction rule: dec_induct) (simp_all only: follow_Suc)

lemma follow_present: "follow n es p = Inr nd \<Longrightarrow> \<exists>nd'. map_of es p = Some nd'"
  by (cases n) (auto split: option.splits)

lemma follow_direct:
  "map_of es p = Some nd \<Longrightarrow> \<forall>t. nd \<noteq> Link t \<Longrightarrow> follow n es p = Inr nd"
  by (cases n) (auto split: node.splits)

lemma stat_opened [simp]: "stat p (w\<lparr>opened := x\<rparr>) = stat p w"
  by (simp add: stat_def)

lemma stat_console [simp]: "stat p (w\<lparr>console := x\<rparr>) = stat p w"
  by (simp add: stat_def)

lemma stat_not_Link: "stat p w \<noteq> Inr (Link t)"
  by (simp add: stat_def follow_not_Link)

lemma stat_present: "stat p w = Inr nd \<Longrightarrow> \<exists>nd'. map_of (entries w) p = Some nd'"
  unfolding stat_def by (rule follow_present)

lemma stat_fails_not_Other: "stat p w = Inl e \<Longrightarrow> map_of (entries w) p \<noteq> Some Other"
  by (auto simp: stat_def follow_direct)

lemma map_of_filter_fst:
  "map_of (filter (\<lambda>e. P (fst e)) es) k = (if P k then map_of es k else None)"
  by (induction es) auto

lemma map_of_filter_two:
  "map_of (filter (\<lambda>e. fst e \<noteq> a \<and> fst e \<noteq> b) es) k
     = (if k \<noteq> a \<and> k \<noteq> b then map_of es k else None)"
  using map_of_filter_fst [of "\<lambda>k. k \<noteq> a \<and> k \<noteq> b" es k] by simp

lemma map_of_renamed:
  "map_of ((new, nd) # filter (\<lambda>e. fst e \<noteq> old \<and> fst e \<noteq> new) es) name
     = (if name = new then Some nd
        else if name \<noteq> old \<and> name \<noteq> new then map_of es name else None)"
  by (simp add: map_of_filter_two)

section \<open>The branches of the callback\<close>


lemma detectImageFormat_readable:
  "stat file w = Inr (File c True) \<Longrightarrow>
     detectImageFormat file w = (sniff c, w\<lparr>opened := opened w @ [file]\<rparr>)"
  by (simp add: detectImageFormat_def readFile_def)

lemma detectImageFormat_world:
  "entries (snd (detectImageFormat file w)) = entries w
   \<and> writable (snd (detectImageFormat file w)) = writable w
   \<and> listable (snd (detectImageFormat file w)) = listable w"
  by (simp add: detectImageFormat_def readFile_def emit_def Let_def split: sum.splits node.splits)

lemma stat_detect [simp]: "stat p (snd (detectImageFormat file w)) = stat p w"
  by (simp add: stat_def detectImageFormat_world)

text \<open>The callback run alone, as one expression: the body of lines 85-132.\<close>

lemma processFile_alone:
  "processFile file (w, st) =
     (case stat file w of
        Inl error \<Rightarrow> (emit (ProcessFileFailed file) w, st\<lparr>errors := errors st + 1\<rparr>)
      | Inr fileStat \<Rightarrow>
          if \<not> isFile fileStat then (w, st)
          else
            let currentExtension = getFileExtension file in
            if currentExtension \<notin> set imageExtensions then (w, st)
            else
              let st1 = st\<lparr>processed := processed st + 1\<rparr> in
              (case detectImageFormat file w of
                (None, w1) \<Rightarrow> (emit (CannotDetect file) w1, st1)
              | (Some actualFormat, w1) \<Rightarrow>
                  if needsRename currentExtension actualFormat then
                    let newName = replaceExtension file actualFormat in
                    (case stat newName w1 of
                       Inr targetStat \<Rightarrow> (emit (TargetExists file newName) w1, st1)
                     | Inl error \<Rightarrow>
                         (case rename file newName w1 of
                            Inl error \<Rightarrow>
                              (emit (ProcessFileFailed file) w1, st1\<lparr>errors := errors st1 + 1\<rparr>)
                          | Inr w2 \<Rightarrow>
                              (emit (Renamed file newName currentExtension actualFormat) w2,
                               st1\<lparr>renamed := renamed st1 + 1\<rparr>)))
                  else (emit (FormatCorrect file actualFormat) w1, st1)))"
  by (simp add: processFile_def Let_def split: sum.splits option.splits prod.splits)

lemma processFile_stat_fails:
  "stat file w = Inl e \<Longrightarrow>
     processFile file (w, st) = (emit (ProcessFileFailed file) w, st\<lparr>errors := errors st + 1\<rparr>)"
  by (simp add: processFile_alone)

lemma processFile_not_file:
  "stat file w = Inr nd \<Longrightarrow> \<not> isFile nd \<Longrightarrow> processFile file (w, st) = (w, st)"
  by (simp add: processFile_alone)

lemma processFile_other_extension:
  "stat file w = Inr nd \<Longrightarrow> getFileExtension file \<notin> set imageExtensions \<Longrightarrow>
     processFile file (w, st) = (w, st)"
  by (simp add: processFile_alone)


lemma processFile_unknown:
  assumes "stat file w = Inr (File c True)" and "getFileExtension file \<in> set imageExtensions"
    and "sniff c = None"
  shows "processFile file (w, st) =
     (emit (CannotDetect file) (w\<lparr>opened := opened w @ [file]\<rparr>),
      st\<lparr>processed := processed st + 1\<rparr>)"
  using assms by (simp add: processFile_alone isFile_def detectImageFormat_readable)


lemma processFile_collision:
  assumes "stat file w = Inr (File c True)" and "getFileExtension file \<in> set imageExtensions"
    and "sniff c = Some actualFormat" and "needsRename (getFileExtension file) actualFormat"
    and "stat (replaceExtension file actualFormat) w = Inr target"
  shows "processFile file (w, st) =
     (emit (TargetExists file (replaceExtension file actualFormat))
        (w\<lparr>opened := opened w @ [file]\<rparr>),
      st\<lparr>processed := processed st + 1\<rparr>)"
  using assms by (simp add: processFile_alone isFile_def detectImageFormat_readable)

lemma processFile_rename_fails:
  assumes "stat file w = Inr (File c True)" and "getFileExtension file \<in> set imageExtensions"
    and "sniff c = Some actualFormat" and "needsRename (getFileExtension file) actualFormat"
    and "stat (replaceExtension file actualFormat) w = Inl e" and "\<not> writable w"
  shows "processFile file (w, st) =
     (emit (ProcessFileFailed file) (w\<lparr>opened := opened w @ [file]\<rparr>),
      st\<lparr>processed := processed st + 1, errors := errors st + 1\<rparr>)"
  using assms by (simp add: processFile_alone isFile_def detectImageFormat_readable rename_def)

lemma processFile_renames:
  assumes "stat file w = Inr (File c True)" and "getFileExtension file \<in> set imageExtensions"
    and "sniff c = Some actualFormat" and "needsRename (getFileExtension file) actualFormat"
    and "stat (replaceExtension file actualFormat) w = Inl e" and "writable w"
    and "map_of (entries w) file = Some nd"
  shows "processFile file (w, st) =
     (emit (Renamed file (replaceExtension file actualFormat) (getFileExtension file) actualFormat)
        (w\<lparr>opened := opened w @ [file],
           entries := (replaceExtension file actualFormat, nd)
              # filter (\<lambda>e. fst e \<noteq> file \<and> fst e \<noteq> replaceExtension file actualFormat)
                  (entries w)\<rparr>),
      st\<lparr>processed := processed st + 1, renamed := renamed st + 1\<rparr>)"
proof -
  from assms(5) have "map_of (entries w) (replaceExtension file actualFormat) \<noteq> Some Other"
    by (rule stat_fails_not_Other)
  with assms show ?thesis
    by (simp add: processFile_alone isFile_def detectImageFormat_readable rename_def emit_def Let_def)
qed

lemmas processFile_unfold =
  processFile_alone isFile_def detectImageFormat_def readFile_def rename_def emit_def Let_def

lemma processFile_changes:
  assumes "renamed (snd (processFile file (w, st))) \<noteq> renamed st
     \<or> entries (fst (processFile file (w, st))) \<noteq> entries w"
  shows "\<exists>c fmt e. stat file w = Inr (File c True)
     \<and> getFileExtension file \<in> set imageExtensions \<and> sniff c = Some fmt
     \<and> needsRename (getFileExtension file) fmt
     \<and> stat (replaceExtension file fmt) w = Inl e \<and> writable w"
  using assms
  by (auto simp: processFile_unfold split: sum.splits option.splits node.splits prod.splits if_splits)

lemma processFile_renamed_changes:
  assumes "renamed (snd (processFile file (w, st))) \<noteq> renamed st"
  shows "\<exists>c fmt e. stat file w = Inr (File c True)
     \<and> getFileExtension file \<in> set imageExtensions \<and> sniff c = Some fmt
     \<and> needsRename (getFileExtension file) fmt
     \<and> stat (replaceExtension file fmt) w = Inl e \<and> writable w"
  using assms processFile_changes [of "file" w st] by blast

section \<open>Batches\<close>

declare batchLoop.simps [simp del]

lemma stepAt_length [simp]: "length (fst (stepAt i c)) = length (fst c)"
proof (cases c rule: prod.exhaust)
  case (Pair ts s)
  then show ?thesis
    by (cases "step (ts ! i) s") simp
qed

lemma fold_stepAt_invariant:
  assumes "P c" and "\<And>i c. P c \<Longrightarrow> P (stepAt i c)"
  shows "P (fold stepAt is c)"
  using assms(1) by (induction "is" arbitrary: c) (simp_all add: assms(2))

lemma oneRound_invariant:
  assumes "P c" and "\<And>i c. P c \<Longrightarrow> P (stepAt i c)"
  shows "P (oneRound c)"
  unfolding oneRound_def using assms by (rule fold_stepAt_invariant)

lemma runBatch_invariant:
  assumes "P c" and "\<And>i c. P c \<Longrightarrow> P (stepAt i c)"
  shows "P (runBatch schedule c)"
proof -
  have start: "P (fold stepAt schedule c)"
    using assms by (rule fold_stepAt_invariant)
  have next_round: "P (oneRound c')" if "P c'" for c'
    using that assms(2) by (rule oneRound_invariant)
  show ?thesis
    unfolding runBatch_def by (intro next_round start)
qed

lemma step_stepsLeft: "stepsLeft (fst (step t s)) \<le> stepsLeft t - 1"
proof (cases s)
  case (Pair w st)
  show ?thesis
    by (cases t) (simp_all add: Pair Let_def split: sum.splits option.splits prod.splits)
qed

lemma stepAt_stepsLeft:
  assumes "j < length (fst c)"
  shows "stepsLeft (fst (stepAt i c) ! j)
     \<le> (if i = j then stepsLeft (fst c ! j) - 1 else stepsLeft (fst c ! j))"
proof (cases c rule: prod.exhaust)
  case (Pair ts s)
  show ?thesis
  proof (cases "i < length ts")
    case True
    obtain t s' where st: "step (ts ! i) s = (t, s')"
      by (cases "step (ts ! i) s")
    with step_stepsLeft [of "ts ! i" s] have "stepsLeft t \<le> stepsLeft (ts ! i) - 1"
      by simp
    with assms Pair True st show ?thesis
      by (auto simp: nth_list_update)
  next
    case False
    with assms Pair show ?thesis
      by auto
  qed
qed

lemma fold_stepAt_stepsLeft:
  assumes "\<forall>j<length (fst c). stepsLeft (fst c ! j) \<le> k" and "m \<le> length (fst c)"
  shows "length (fst (fold stepAt [0..<m] c)) = length (fst c)
     \<and> (\<forall>j<length (fst c).
          stepsLeft (fst (fold stepAt [0..<m] c) ! j) \<le> (if j < m then k - 1 else k))"
  using assms(2)
proof (induction m)
  case 0
  with assms(1) show ?case by simp
next
  case (Suc m)
  let ?c = "fold stepAt [0..<m] c"
  from Suc have IH: "length (fst ?c) = length (fst c)"
    "\<forall>j<length (fst c). stepsLeft (fst ?c ! j) \<le> (if j < m then k - 1 else k)"
    by simp_all
  have step: "fold stepAt [0..<Suc m] c = stepAt m ?c"
    by simp
  show ?case
  proof (intro conjI allI impI)
    show "length (fst (fold stepAt [0..<Suc m] c)) = length (fst c)"
      by (simp add: IH(1))
  next
    fix j
    assume j: "j < length (fst c)"
    define X where "X = stepsLeft (fst (stepAt m ?c) ! j)"
    define A where "A = stepsLeft (fst ?c ! j)"
    from j IH(1) have "X \<le> (if m = j then A - 1 else A)"
      unfolding X_def A_def by (intro stepAt_stepsLeft) simp
    moreover from IH(2) j have "A \<le> (if j < m then k - 1 else k)"
      unfolding A_def by blast
    ultimately have "X \<le> (if j < Suc m then k - 1 else k)"
      by (cases "j < m"; cases "j = m") auto
    then show "stepsLeft (fst (fold stepAt [0..<Suc m] c) ! j)
        \<le> (if j < Suc m then k - 1 else k)"
      by (simp only: step X_def)
  qed
qed

lemma oneRound_stepsLeft:
  assumes "\<forall>j<length (fst c). stepsLeft (fst c ! j) \<le> k"
  shows "length (fst (oneRound c)) = length (fst c)
     \<and> (\<forall>j<length (fst c). stepsLeft (fst (oneRound c) ! j) \<le> k - 1)"
  using fold_stepAt_stepsLeft [OF assms, of "length (fst c)"] by (simp add: oneRound_def)

lemma stepsLeft_le_4: "stepsLeft t \<le> 4"
  by (cases t) simp_all

lemma fold_stepAt_length [simp]: "length (fst (fold stepAt is c)) = length (fst c)"
  by (induction "is" arbitrary: c) simp_all

lemma runBatch_finished:
  "length (fst (runBatch schedule c)) = length (fst c)
   \<and> (\<forall>j<length (fst c). fst (runBatch schedule c) ! j = Finished)"
proof -
  let ?c0 = "fold stepAt schedule c"
  have l0: "length (fst ?c0) = length (fst c)"
    by simp
  have r0: "\<forall>j<length (fst ?c0). stepsLeft (fst ?c0 ! j) \<le> 4"
    by (simp add: stepsLeft_le_4)
  note r1 = oneRound_stepsLeft [OF r0]
  from r1 have r1': "\<forall>j<length (fst (oneRound ?c0)). stepsLeft (fst (oneRound ?c0) ! j) \<le> 3"
    by simp
  note r2 = oneRound_stepsLeft [OF r1']
  from r2 have r2': "\<forall>j<length (fst (oneRound (oneRound ?c0))).
      stepsLeft (fst (oneRound (oneRound ?c0)) ! j) \<le> 2"
    by simp
  note r3 = oneRound_stepsLeft [OF r2']
  from r3 have r3': "\<forall>j<length (fst (oneRound (oneRound (oneRound ?c0)))).
      stepsLeft (fst (oneRound (oneRound (oneRound ?c0))) ! j) \<le> 1"
    by simp
  note r4 = oneRound_stepsLeft [OF r3']
  from r4 r3 r2 r1 l0 have
    "length (fst (runBatch schedule c)) = length (fst c)"
    "\<forall>j<length (fst c). stepsLeft (fst (runBatch schedule c) ! j) = 0"
    by (simp_all add: runBatch_def)
  moreover have "stepsLeft t = 0 \<longleftrightarrow> t = Finished" for t
    by (cases t) simp_all
  ultimately show ?thesis
    by simp
qed

lemma processBatch_invariant:
  assumes "Q s" and "\<And>t s. Q s \<Longrightarrow> Q (snd (step t s))"
  shows "Q (processBatch schedule batch s)"
proof -
  have "Q (snd (stepAt i c))" if "Q (snd c)" for i c
  proof (cases c rule: prod.exhaust)
    case (Pair ts s')
    with that assms(2) [of s' "ts ! i"] show ?thesis
      by (cases "step (ts ! i) s'") auto
  qed
  then have "Q (snd (runBatch schedule (map AwaitStat batch, s)))"
    using assms(1) by (intro runBatch_invariant [where P = "\<lambda>c. Q (snd c)"]) simp_all
  then show ?thesis
    by (simp add: processBatch_def)
qed

lemma batchLoop_invariant:
  assumes "Q s" and "\<And>schedule batch s. Q s \<Longrightarrow> Q (processBatch schedule batch s)"
  shows "Q (batchLoop schedules i files s)"
  using assms(1)
proof (induction schedules i files s rule: batchLoop.induct)
  case (1 schedules i files s)
  show ?case
  proof (cases "i < length files")
    case True
    with 1 show ?thesis
      by (subst batchLoop.simps) (simp add: assms(2))
  next
    case False
    with "1.prems" show ?thesis
      by (subst batchLoop.simps) simp
  qed
qed

lemma run_invariant:
  assumes "Q s" and "\<And>t s. Q s \<Longrightarrow> Q (snd (step t s))"
  shows "Q (batchLoop schedules i files s)"
  using assms(1) by (rule batchLoop_invariant) (rule processBatch_invariant, simp_all add: assms(2))

lemma processDirectory_unlistable:
  "\<not> listable w \<Longrightarrow>
     processDirectory schedules w
       = (emit ReadDirFailed w, \<lparr>processed = 0, renamed = 0, errors = 1\<rparr>)"
  by (simp add: processDirectory_def readdir_def)

lemma processDirectory_listable:
  "listable w \<Longrightarrow>
     processDirectory schedules w
       = batchLoop schedules 0 (map fst (entries w)) (w, \<lparr>processed = 0, renamed = 0, errors = 0\<rparr>)"
  by (simp add: processDirectory_def readdir_def)

lemma step_inFlight:
  assumes "step t (w, st) = (t', (w', st'))"
    and "renamed st + inFlight t + k \<le> processed st"
  shows "renamed st' + inFlight t' + k \<le> processed st'"
  using assms
  by (cases t) (auto simp: Let_def split: sum.splits option.splits prod.splits if_splits)

lemma stepAt_inFlight:
  assumes "renamed (snd (snd c)) + sum_list (map inFlight (fst c)) \<le> processed (snd (snd c))"
  shows "renamed (snd (snd (stepAt i c))) + sum_list (map inFlight (fst (stepAt i c)))
     \<le> processed (snd (snd (stepAt i c)))"
proof (cases c rule: prod.exhaust)
  case (Pair ts s)
  obtain w st where s: "s = (w, st)"
    by (cases s)
  show ?thesis
  proof (cases "i < length ts")
    case False
    with assms Pair show ?thesis by simp
  next
    case True
    obtain t' w' st' where step: "step (ts ! i) (w, st) = (t', (w', st'))"
      by (metis prod.exhaust)
    define k where "k = sum_list (map inFlight ts) - inFlight (ts ! i)"
    have le: "inFlight (ts ! i) \<le> sum_list (map inFlight ts)"
      using True by (intro member_le_sum_list) simp_all
    then have total: "sum_list (map inFlight ts) = inFlight (ts ! i) + k"
      by (simp add: k_def)
    with assms Pair s have "renamed st + inFlight (ts ! i) + k \<le> processed st"
      by simp
    from step_inFlight [OF step this]
    have "renamed st' + inFlight t' + k \<le> processed st'" .
    moreover have "sum_list (map inFlight (ts[i := t'])) = inFlight t' + k"
      using True le by (simp add: map_update sum_list_update k_def)
    ultimately show ?thesis
      using Pair s True step by simp
  qed
qed

lemma processBatch_renamed_le:
  assumes "renamed (snd s) \<le> processed (snd s)"
  shows "renamed (snd (processBatch schedule batch s)) \<le> processed (snd (processBatch schedule batch s))"
proof -
  let ?P = "\<lambda>c. renamed (snd (snd c)) + sum_list (map inFlight (fst c)) \<le> processed (snd (snd c))"
  have none: "sum_list (map (inFlight \<circ> AwaitStat) batch) = 0"
    by (induction batch) simp_all
  have "?P (map AwaitStat batch, s)"
    using assms by (simp add: none)
  then have "?P (runBatch schedule (map AwaitStat batch, s))"
    by (rule runBatch_invariant) (rule stepAt_inFlight)
  then show ?thesis
    by (simp add: processBatch_def)
qed

lemma processDirectory_renamed_le:
  "renamed (snd (processDirectory schedules w)) \<le> processed (snd (processDirectory schedules w))"
proof (cases "listable w")
  case True
  have "renamed (snd (batchLoop schedules 0 fs (w, \<lparr>processed = 0, renamed = 0, errors = 0\<rparr>)))
      \<le> processed (snd (batchLoop schedules 0 fs (w, \<lparr>processed = 0, renamed = 0, errors = 0\<rparr>)))" for fs
    by (rule batchLoop_invariant [where Q = "\<lambda>s. renamed (snd s) \<le> processed (snd s)"])
      (simp_all add: processBatch_renamed_le)
  with True show ?thesis
    by (simp add: processDirectory_listable)
next
  case False
  then show ?thesis
    by (simp add: processDirectory_unlistable)
qed

section \<open>Links and renames\<close>

lemma follow_avoid:
  assumes a: "\<And>j. j \<le> m \<Longrightarrow> follow j es a \<noteq> Inr nd"
    and b: "\<And>j. j \<le> m \<Longrightarrow> follow j es b \<noteq> Inr nd"
    and same: "\<And>p. p \<noteq> a \<Longrightarrow> p \<noteq> b \<Longrightarrow> map_of es' p = map_of es p"
    and res: "follow k es p = Inr nd" and le: "k \<le> m"
  shows "follow k es' p = Inr nd"
  using res le
proof (induction k arbitrary: p)
  case 0
  with a [of 0] b [of 0] have "p \<noteq> a" "p \<noteq> b"
    by auto
  then have "map_of es' p = map_of es p"
    by (rule same)
  with "0.prems"(1) show ?case
    by simp
next
  case (Suc k)
  with a [of "Suc k"] b [of "Suc k"] have "p \<noteq> a" "p \<noteq> b"
    by auto
  then have eq: "map_of es' p = map_of es p"
    by (rule same)
  show ?case
  proof (cases "\<exists>q. map_of es p = Some (Link q)")
    case True
    then obtain q where q: "map_of es p = Some (Link q)"
      by blast
    with Suc.prems have "follow k es q = Inr nd"
      by simp
    with Suc.prems(2) have "follow k es' q = Inr nd"
      by (intro Suc.IH) simp_all
    with q eq show ?thesis
      by simp
  next
    case False
    with Suc.prems(1) eq show ?thesis
      by (auto split: option.splits node.splits)
  qed
qed

lemma follow_Link: "map_of es p = Some (Link t) \<Longrightarrow> follow (Suc n) es p = follow n es t"
  by simp

lemma follow_Link_0: "map_of es p = Some (Link t) \<Longrightarrow> follow 0 es p = Inl ELOOP"
  by simp

lemma follow_after_rename:
  assumes res: "follow n es old = Inr nd" and fail: "follow n es new = Inl e"
    and ent: "map_of es old = Some x"
  shows "follow n ((new, x) # filter (\<lambda>e. fst e \<noteq> old \<and> fst e \<noteq> new) es) new = Inr nd"
proof (cases "\<exists>t. x = Link t")
  case False
  with res ent have "nd = x"
    by (cases n) (auto split: node.splits)
  with False show ?thesis
    by (intro follow_direct) simp_all
next
  case True
  then obtain t where x: "x = Link t"
    by blast
  let ?es' = "(new, x) # filter (\<lambda>e. fst e \<noteq> old \<and> fst e \<noteq> new) es"
  from res ent x obtain n' where n: "n = Suc n'" and t: "follow n' es t = Inr nd"
    by (cases n) simp_all
  define m where "m = (LEAST m. follow m es t = Inr nd)"
  have m: "follow m es t = Inr nd"
    unfolding m_def using t by (rule LeastI)
  have least: "follow j es t \<noteq> Inr nd" if "j < m" for j
    using that not_less_Least unfolding m_def by blast
  have m_le: "m \<le> n'"
    unfolding m_def using t by (rule Least_le)
  have old: "follow j es old \<noteq> Inr nd" if "j \<le> m" for j
  proof (cases j)
    case 0
    with ent x show ?thesis by simp
  next
    case (Suc j')
    with that least [of j'] ent x show ?thesis by simp
  qed
  have new: "follow j es new \<noteq> Inr nd" if "j \<le> m" for j
  proof
    assume "follow j es new = Inr nd"
    moreover have "j \<le> n"
      using that m_le n by simp
    ultimately have "follow n es new = Inr nd"
      by (rule follow_mono)
    with fail show False by simp
  qed
  have same: "map_of ?es' p = map_of es p" if "p \<noteq> old" "p \<noteq> new" for p
    using that by (simp add: map_of_filter_two)
  have "follow m ?es' t = Inr nd"
  proof (rule follow_avoid [where a = old and b = new and m = m and es = es])
    show "follow m es t = Inr nd" by (rule m)
  qed (simp_all add: old new map_of_filter_two)
  then have "follow n' ?es' t = Inr nd"
    using m_le by (rule follow_mono)
  then show ?thesis
    by (simp add: n x)
qed

section \<open>An unlistable directory, and entries that are not images\<close>

lemma step_no_ReadDirFailed:
  "ReadDirFailed \<notin> set (console (fst s)) \<Longrightarrow>
     ReadDirFailed \<notin> set (console (fst (snd (step t s))))"
  by (cases s; cases t)
    (auto simp: detectImageFormat_def readFile_def rename_def emit_def Let_def
      split: sum.splits option.splits node.splits prod.splits if_splits)

lemma exitCode_zero: "exitCode schedules w = 0"
  by (simp add: exitCode_def main_def split: prod.splits)

text \<open>
  C2, as stated, fails: when the target directory cannot be listed, the process still ends
  with exit code 0. The \<open>catch\<close> of lines 135-138 absorbs the failure of \<open>readdir\<close>, so
  the promise of \<open>main\<close> resolves and the handler of lines 166-169 does not run.
\<close>

theorem unlistable_exit_counterexample:
  "readdir unlistable = Inl ENOENT \<and> exitCode inStep unlistable = 0"
  by (simp add: unlistable_def directory_def readdir_def exitCode_def main_def split: prod.splits)

text \<open>
  C2, amended: every run ends with exit code 0, whether the directory can be listed or not
  and however the callbacks of a batch are interleaved. When the directory cannot be listed,
  the run prints the directory error of line 136 and returns processed = 0, renamed = 0,
  errors = 1; when it can be listed, that line is never printed.
\<close>

theorem exit_code_zero_always:
  "exitCode schedules w = 0
   \<and> (\<not> listable w \<longrightarrow>
        processDirectory schedules w
          = (emit ReadDirFailed w, \<lparr>processed = 0, renamed = 0, errors = 1\<rparr>))
   \<and> (listable w \<and> ReadDirFailed \<notin> set (console w) \<longrightarrow>
        ReadDirFailed \<notin> set (console (fst (processDirectory schedules w))))"
proof (intro conjI impI)
  show "exitCode schedules w = 0"
    by (rule exitCode_zero)
next
  assume "\<not> listable w"
  then show "processDirectory schedules w
      = (emit ReadDirFailed w, \<lparr>processed = 0, renamed = 0, errors = 1\<rparr>)"
    by (rule processDirectory_unlistable)
next
  assume a: "listable w \<and> ReadDirFailed \<notin> set (console w)"
  have "ReadDirFailed \<notin> set (console (fst (batchLoop schedules 0 fs (w, st))))" for fs st
    by (rule run_invariant [where Q = "\<lambda>s. ReadDirFailed \<notin> set (console (fst s))"])
      (simp_all add: a step_no_ReadDirFailed)
  with a show "ReadDirFailed \<notin> set (console (fst (processDirectory schedules w)))"
    by (simp add: processDirectory_listable)
qed

theorem exit_code_zero_always_witness:
  "\<not> listable unlistable \<and> exitCode inStep unlistable = 0
   \<and> snd (processDirectory inStep unlistable) = \<lparr>processed = 0, renamed = 0, errors = 1\<rparr>
   \<and> listable scenarioXYZ \<and> ReadDirFailed \<notin> set (console scenarioXYZ)
   \<and> exitCode inStep scenarioXYZ = 0
   \<and> ReadDirFailed \<notin> set (console (fst (processDirectory inStep scenarioXYZ)))"
  using exit_code_zero_always [of inStep unlistable] exit_code_zero_always [of inStep scenarioXYZ]
  by (simp add: unlistable_def scenarioXYZ_def directory_def)

text \<open>
  C9, as stated, fails for an entry on which \<open>stat\<close> fails: \<open>stat\<close> (line 88) comes
  before the test of the extension (line 95), so a dangling link named \<open>d.txt\<close> counts in
  \<open>errors\<close>.
\<close>

theorem unrecognised_extension_counterexample:
  "map_of (entries danglingTxt) ''d.txt'' = Some (Link ''gone.txt'')
   \<and> getFileExtension ''d.txt'' \<notin> set imageExtensions
   \<and> snd (processDirectory inStep danglingTxt) = \<lparr>processed = 0, renamed = 0, errors = 1\<rparr>"
  by code_simp

text \<open>
  C9, amended: for every entry on which \<open>stat\<close> succeeds and whose lower-cased extension
  is outside the recognised set, the callback ends at its first step and changes nothing: no
  statistic, no printed line, no read of its content, no change of the directory. An entry
  on which \<open>stat\<close> fails counts in \<open>errors\<close> whatever its extension, and its content is not
  read either.
\<close>

theorem unrecognised_extension_ignored:
  "(\<forall>nd. stat file w = Inr nd \<and> getFileExtension file \<notin> set imageExtensions \<longrightarrow>
       step (AwaitStat file) (w, st) = (Finished, (w, st))
       \<and> processFile file (w, st) = (w, st))
   \<and> (\<forall>e. stat file w = Inl e \<longrightarrow>
       step (AwaitStat file) (w, st)
         = (Finished, (emit (ProcessFileFailed file) w, st\<lparr>errors := errors st + 1\<rparr>))
       \<and> processFile file (w, st)
         = (emit (ProcessFileFailed file) w, st\<lparr>errors := errors st + 1\<rparr>)
       \<and> opened (emit (ProcessFileFailed file) w) = opened w)"
  by (simp add: processFile_other_extension processFile_stat_fails emit_def)

theorem unrecognised_extension_ignored_witness:
  "getFileExtension ''d.txt'' \<notin> set imageExtensions
   \<and> stat ''d.txt'' (directory [(''d.txt'', File [0x68, 0x69] True)]) = Inr (File [0x68, 0x69] True)
   \<and> processFile ''d.txt'' (directory [(''d.txt'', File [0x68, 0x69] True)], noStats)
       = (directory [(''d.txt'', File [0x68, 0x69] True)], noStats)
   \<and> stat ''x.jpg'' (directory [(''x.jpg'', Link ''gone.jpg'')]) = Inl ENOENT
   \<and> getFileExtension ''x.jpg'' \<in> set imageExtensions
   \<and> snd (processFile ''x.jpg'' (directory [(''x.jpg'', Link ''gone.jpg'')], noStats))
       = \<lparr>processed = 0, renamed = 0, errors = 1\<rparr>"
proof -
  have facts: "getFileExtension ''d.txt'' \<notin> set imageExtensions"
    "stat ''d.txt'' (directory [(''d.txt'', File [0x68, 0x69] True)]) = Inr (File [0x68, 0x69] True)"
    "stat ''x.jpg'' (directory [(''x.jpg'', Link ''gone.jpg'')]) = Inl ENOENT"
    "getFileExtension ''x.jpg'' \<in> set imageExtensions"
    by code_simp+
  show ?thesis
    using facts
      unrecognised_extension_ignored
        [of "''d.txt''" "directory [(''d.txt'', File [0x68, 0x69] True)]" noStats]
      unrecognised_extension_ignored
        [of "''x.jpg''" "directory [(''x.jpg'', Link ''gone.jpg'')]" noStats]
    by (simp add: noStats_def)
qed

section \<open>Collisions\<close>

text \<open>
  The check of line 116 is a \<open>stat\<close>, which follows links: a dangling link at the target
  path is not seen, and the rename replaces it.
\<close>

lemma dangling_target_replaced:
  "map_of (entries danglingTarget) ''c.jpg'' = Some (File pngHeader True)
   \<and> map_of (entries danglingTarget) ''c.png'' = Some (Link ''gone.png'')
   \<and> map_of (entries (fst (processDirectory inStep danglingTarget))) ''c.png''
       = Some (File pngHeader True)
   \<and> map_of (entries (fst (processDirectory inStep danglingTarget))) ''c.jpg'' = None
   \<and> renamed (snd (processDirectory inStep danglingTarget)) = 1
   \<and> \<not> list_ex isCollision (console (fst (processDirectory inStep danglingTarget)))"
  by code_simp

text \<open>
  When the \<open>stat\<close> of line 116 finds something at the target path, the callback ends
  there: it prints the warning of line 117 and changes neither the directory nor the
  statistics.
\<close>

lemma seen_target_aborts_rename:
  assumes "stat newName w = Inr target"
  shows "step (AwaitTargetStat file currentExtension actualFormat newName) (w, st)
       = (Finished, (emit (TargetExists file newName) w, st))
    \<and> entries (emit (TargetExists file newName) w) = entries w
    \<and> console (emit (TargetExists file newName) w) = console w @ [TargetExists file newName]
    \<and> level_of (TargetExists file newName) = ConsoleWarn
    \<and> (\<forall>c. stat file w = Inr (File c True) \<and> getFileExtension file \<in> set imageExtensions
            \<and> sniff c = Some actualFormat \<and> needsRename (getFileExtension file) actualFormat
            \<and> newName = replaceExtension file actualFormat \<longrightarrow>
          processFile file (w, st)
            = (emit (TargetExists file newName) (w\<lparr>opened := opened w @ [file]\<rparr>),
               st\<lparr>processed := processed st + 1\<rparr>))"
proof (intro conjI allI impI)
  fix c
  assume "stat file w = Inr (File c True) \<and> getFileExtension file \<in> set imageExtensions
      \<and> sniff c = Some actualFormat \<and> needsRename (getFileExtension file) actualFormat
      \<and> newName = replaceExtension file actualFormat"
  with assms show "processFile file (w, st)
      = (emit (TargetExists file newName) (w\<lparr>opened := opened w @ [file]\<rparr>),
         st\<lparr>processed := processed st + 1\<rparr>)"
    by (simp add: processFile_collision)
qed (use assms in \<open>simp_all add: emit_def\<close>)

text \<open>
  The example of the specification: with PNG content in \<open>c.jpg\<close> and an existing
  \<open>c.png\<close>, nothing is renamed and the warning is printed.
\<close>

lemma collision_example:
  "entries (fst (processDirectory inStep collisionC)) = entries collisionC
   \<and> snd (processDirectory inStep collisionC) = \<lparr>processed = 2, renamed = 0, errors = 0\<rparr>
   \<and> list_ex isCollision (console (fst (processDirectory inStep collisionC)))"
  by code_simp

text \<open>
  C5 does not hold of the program: a file at the target path can be overwritten without a
  warning. The check of line 116 and the rename of line 123 are separated by an \<open>await\<close>,
  and the callbacks of a batch run interleaved. With GIF content in both \<open>a.jpg\<close> and
  \<open>a.png\<close>, each callback finds \<open>a.gif\<close> absent before the other one renames; then
  \<open>a.jpg\<close> is renamed to \<open>a.gif\<close>, and \<open>a.png\<close> is renamed to \<open>a.gif\<close> over it. One
  entry is left, the content that was in \<open>a.jpg\<close> is lost, no warning is printed and
  \<open>renamed\<close> is 2. When the first callback runs to its end before the second one moves,
  the second one sees \<open>a.gif\<close> and gives up its rename, as the comments of lines 114 and 120
  intend.
\<close>

theorem sibling_rename_overwrites:
  "map_of (entries siblings) ''a.jpg'' = Some (File gifHeader True)
   \<and> map_of (entries siblings) ''a.png'' = Some (File gif87Header True)
   \<and> gifHeader \<noteq> gif87Header
   \<and> entries (fst (processDirectory inStep siblings)) = [(''a.gif'', File gif87Header True)]
   \<and> snd (processDirectory inStep siblings) = \<lparr>processed = 2, renamed = 2, errors = 0\<rparr>
   \<and> \<not> list_ex isCollision (console (fst (processDirectory inStep siblings)))
   \<and> entries (fst (processDirectory firstAlone siblings))
       = [(''a.gif'', File gifHeader True), (''a.png'', File gif87Header True)]
   \<and> snd (processDirectory firstAlone siblings) = \<lparr>processed = 2, renamed = 1, errors = 0\<rparr>
   \<and> console (fst (processDirectory firstAlone siblings))
       = [Renamed ''a.jpg'' ''a.gif'' ''jpg'' ''gif'', TargetExists ''a.png'' ''a.gif'']"
  by code_simp

section \<open>The rename decision\<close>




section \<open>The new name\<close>

lemma new_name_extension:
  assumes "getFileExtension file \<in> set imageExtensions" and "sniff c = Some fmt"
  shows "getFileExtension (replaceExtension file fmt) = fmt"
proof -
  from recognised_split [OF assms(1)] obtain stem ext where
    "file = stem @ CHR ''.'' # ext" "CHR ''.'' \<notin> set ext" "stem \<noteq> []" "ext \<noteq> []"
    by blast
  with assms(2) show ?thesis
    by (simp add: replaceExtension_append getFileExtension_tag)
qed

lemma rename_entries:
  assumes "rename old new w = Inr w'"
  shows "\<exists>nd. map_of (entries w) old = Some nd
     \<and> entries w' = (new, nd) # filter (\<lambda>e. fst e \<noteq> old \<and> fst e \<noteq> new) (entries w)
     \<and> writable w \<and> map_of (entries w) new \<noteq> Some Other
     \<and> writable w' = writable w \<and> listable w' = listable w \<and> console w' = console w
     \<and> opened w' = opened w"
  using assms by (auto simp: rename_def split: if_splits option.splits)

text \<open>
  C8: whenever processing an entry increments \<open>renamed\<close>, the entry was a readable regular
  file named \<open>stem.ext\<close> (\<open>ext\<close> its final extension) with a detected format; the new name
  is \<open>stem\<close>, a dot and the format tag, its extension is that tag, the same bytes are found
  under the new name, the old name is gone, and every other entry is as before. The step of
  the rename itself moves the entry as it is to the new name, whatever the other callbacks
  have done before.
\<close>

theorem rename_replaces_extension:
  "(renamed (snd (processFile file (w, st))) \<noteq> renamed st \<longrightarrow>
     (\<exists>stem ext c actualFormat.
        file = stem @ ''.'' @ ext \<and> CHR ''.'' \<notin> set ext \<and> ext \<noteq> [] \<and> stem \<noteq> []
      \<and> stat file w = Inr (File c True) \<and> sniff c = Some actualFormat
      \<and> replaceExtension file actualFormat = stem @ ''.'' @ actualFormat
      \<and> getFileExtension (stem @ ''.'' @ actualFormat) = actualFormat
      \<and> stat (stem @ ''.'' @ actualFormat) (fst (processFile file (w, st))) = Inr (File c True)
      \<and> stat file (fst (processFile file (w, st))) = Inl ENOENT
      \<and> map_of (entries (fst (processFile file (w, st)))) (stem @ ''.'' @ actualFormat)
          = map_of (entries w) file
      \<and> (\<forall>other. other \<noteq> file \<and> other \<noteq> stem @ ''.'' @ actualFormat \<longrightarrow>
            map_of (entries (fst (processFile file (w, st)))) other = map_of (entries w) other)))
   \<and> (\<forall>currentExtension actualFormat newName w' st'.
        step (AwaitRename file currentExtension actualFormat newName) (w, st) = (Finished, (w', st'))
        \<and> renamed st' \<noteq> renamed st \<longrightarrow>
          map_of (entries w') newName = map_of (entries w) file
          \<and> map_of (entries w) file \<noteq> None
          \<and> (newName \<noteq> file \<longrightarrow> map_of (entries w') file = None)
          \<and> (\<forall>other. other \<noteq> file \<and> other \<noteq> newName \<longrightarrow>
                map_of (entries w') other = map_of (entries w) other))"
proof (intro conjI impI allI)
  assume changed: "renamed (snd (processFile file (w, st))) \<noteq> renamed st"
  from processFile_renamed_changes [OF changed]
  obtain c fmt e where branch:
    "stat file w = Inr (File c True)" "getFileExtension file \<in> set imageExtensions"
    "sniff c = Some fmt" "needsRename (getFileExtension file) fmt"
    "stat (replaceExtension file fmt) w = Inl e" "writable w"
    by blast
  from stat_present [OF branch(1)] obtain nd where nd: "map_of (entries w) file = Some nd"
    by blast
  from recognised_split [OF branch(2)]
  obtain stem ext where split:
    "file = stem @ CHR ''.'' # ext" "CHR ''.'' \<notin> set ext" "stem \<noteq> []" "ext \<noteq> []"
    by blast
  have new: "replaceExtension file fmt = stem @ CHR ''.'' # fmt"
    using split by (simp add: replaceExtension_append)
  have ext_new: "getFileExtension (stem @ CHR ''.'' # fmt) = fmt"
    using split(3) branch(3) by (rule getFileExtension_tag)
  have differs: "file \<noteq> stem @ CHR ''.'' # fmt"
    using branch(4) ext_new needsRename_irrefl [of fmt] by auto
  note result = processFile_renames [OF branch nd, of st]
  have ent: "entries (fst (processFile file (w, st)))
      = (stem @ CHR ''.'' # fmt, nd)
        # filter (\<lambda>e. fst e \<noteq> file \<and> fst e \<noteq> stem @ CHR ''.'' # fmt) (entries w)"
    by (simp add: result new emit_def)
  have "stat (stem @ CHR ''.'' # fmt) (fst (processFile file (w, st))) = Inr (File c True)"
    unfolding stat_def ent
    using branch(1,5) nd by (intro follow_after_rename) (simp_all add: stat_def new)
  moreover have "stat file (fst (processFile file (w, st))) = Inl ENOENT"
    using differs by (simp add: stat_def ent maxLinks_def follow_numeral map_of_filter_two)
  moreover have "map_of (entries (fst (processFile file (w, st)))) (stem @ CHR ''.'' # fmt)
      = map_of (entries w) file"
    by (simp add: ent nd)
  moreover have "\<forall>other. other \<noteq> file \<and> other \<noteq> stem @ CHR ''.'' # fmt \<longrightarrow>
      map_of (entries (fst (processFile file (w, st)))) other = map_of (entries w) other"
    by (simp add: ent map_of_filter_two)
  ultimately show "\<exists>stem ext c actualFormat.
        file = stem @ ''.'' @ ext \<and> CHR ''.'' \<notin> set ext \<and> ext \<noteq> [] \<and> stem \<noteq> []
      \<and> stat file w = Inr (File c True) \<and> sniff c = Some actualFormat
      \<and> replaceExtension file actualFormat = stem @ ''.'' @ actualFormat
      \<and> getFileExtension (stem @ ''.'' @ actualFormat) = actualFormat
      \<and> stat (stem @ ''.'' @ actualFormat) (fst (processFile file (w, st))) = Inr (File c True)
      \<and> stat file (fst (processFile file (w, st))) = Inl ENOENT
      \<and> map_of (entries (fst (processFile file (w, st)))) (stem @ ''.'' @ actualFormat)
          = map_of (entries w) file
      \<and> (\<forall>other. other \<noteq> file \<and> other \<noteq> stem @ ''.'' @ actualFormat \<longrightarrow>
            map_of (entries (fst (processFile file (w, st)))) other = map_of (entries w) other)"
    using split branch(1,3) new ext_new
    by (intro exI [of _ stem] exI [of _ ext] exI [of _ c] exI [of _ fmt]) simp
next
  fix currentExtension actualFormat newName w' st'
  assume a: "step (AwaitRename file currentExtension actualFormat newName) (w, st) = (Finished, (w', st'))
      \<and> renamed st' \<noteq> renamed st"
  then obtain w1 where w1: "rename file newName w = Inr w1"
    and w': "w' = emit (Renamed file newName currentExtension actualFormat) w1"
    by (auto split: sum.splits)
  from rename_entries [OF w1] obtain nd where nd: "map_of (entries w) file = Some nd"
    and ent: "entries w' = (newName, nd) # filter (\<lambda>e. fst e \<noteq> file \<and> fst e \<noteq> newName) (entries w)"
    by (auto simp: w' emit_def)
  show "map_of (entries w') newName = map_of (entries w) file"
    by (simp add: ent nd)
  show "map_of (entries w) file \<noteq> None"
    by (simp add: nd)
  show "map_of (entries w') file = None" if "newName \<noteq> file"
    using that by (simp add: ent map_of_filter_two)
  show "map_of (entries w') other = map_of (entries w) other"
    if "other \<noteq> file \<and> other \<noteq> newName" for other
    using that by (simp add: ent map_of_filter_two)
qed

theorem rename_replaces_extension_witness:
  "renamed (snd (processFile ''a.jpg'' (wrongJpg, noStats))) \<noteq> renamed noStats
   \<and> stat ''a.jpg'' wrongJpg = Inr (File gifHeader True)
   \<and> stat ''a.gif'' (fst (processFile ''a.jpg'' (wrongJpg, noStats))) = Inr (File gifHeader True)
   \<and> stat ''a.jpg'' (fst (processFile ''a.jpg'' (wrongJpg, noStats))) = Inl ENOENT
   \<and> getFileExtension ''a.gif'' = ''gif''"
proof -
  have "renamed (snd (processFile ''a.jpg'' (wrongJpg, noStats))) \<noteq> renamed noStats"
    "stat ''a.jpg'' wrongJpg = Inr (File gifHeader True)"
    "stat ''a.gif'' (fst (processFile ''a.jpg'' (wrongJpg, noStats))) = Inr (File gifHeader True)"
    "stat ''a.jpg'' (fst (processFile ''a.jpg'' (wrongJpg, noStats))) = Inl ENOENT"
    "getFileExtension ''a.gif'' = ''gif''"
    by code_simp+
  then show ?thesis
    using rename_replaces_extension [of "''a.jpg''" wrongJpg noStats] by blast
qed

section \<open>Statistics\<close>

text \<open>
  C10: in the statistics that a run returns, \<open>renamed\<close> is at most \<open>processed\<close>, however
  the callbacks of a batch are interleaved. Processing one entry changes \<open>renamed\<close> only by
  the increment of line 125, and then the same entry has gone through the increment of
  \<open>processed\<close> (line 97) before.
\<close>

theorem renamed_le_processed:
  "renamed (snd (processDirectory schedules w)) \<le> processed (snd (processDirectory schedules w))
   \<and> (renamed (snd (processFile file (w, st))) \<noteq> renamed st \<longrightarrow>
        renamed (snd (processFile file (w, st))) = renamed st + 1
        \<and> processed (snd (processFile file (w, st))) = processed st + 1)"
proof (intro conjI impI)
  show "renamed (snd (processDirectory schedules w)) \<le> processed (snd (processDirectory schedules w))"
    by (rule processDirectory_renamed_le)
next
  assume "renamed (snd (processFile file (w, st))) \<noteq> renamed st"
  from processFile_renamed_changes [OF this] obtain c fmt e where branch:
    "stat file w = Inr (File c True)" "getFileExtension file \<in> set imageExtensions"
    "sniff c = Some fmt" "needsRename (getFileExtension file) fmt"
    "stat (replaceExtension file fmt) w = Inl e" "writable w"
    by blast
  from stat_present [OF branch(1)] obtain nd where "map_of (entries w) file = Some nd"
    by blast
  from processFile_renames [OF branch this, of st]
  have "snd (processFile file (w, st))
      = st\<lparr>processed := processed st + 1, renamed := renamed st + 1\<rparr>"
    by simp
  then show "renamed (snd (processFile file (w, st))) = renamed st + 1"
    and "processed (snd (processFile file (w, st))) = processed st + 1"
    by simp_all
qed

theorem renamed_le_processed_witness:
  "snd (processDirectory inStep wrongJpg) = \<lparr>processed = 2, renamed = 1, errors = 0\<rparr>
   \<and> renamed (snd (processDirectory inStep wrongJpg)) \<le> processed (snd (processDirectory inStep wrongJpg))
   \<and> renamed (snd (processFile ''a.jpg'' (wrongJpg, noStats))) \<noteq> renamed noStats
   \<and> snd (processFile ''a.jpg'' (wrongJpg, noStats)) = \<lparr>processed = 1, renamed = 1, errors = 0\<rparr>"
proof -
  have "snd (processDirectory inStep wrongJpg) = \<lparr>processed = 2, renamed = 1, errors = 0\<rparr>"
    "renamed (snd (processFile ''a.jpg'' (wrongJpg, noStats))) \<noteq> renamed noStats"
    "snd (processFile ''a.jpg'' (wrongJpg, noStats)) = \<lparr>processed = 1, renamed = 1, errors = 0\<rparr>"
    by code_simp+
  then show ?thesis
    using renamed_le_processed [of inStep wrongJpg "''a.jpg''" noStats] by simp
qed

section \<open>Unreadable files\<close>








section \<open>Running twice\<close>

section \<open>Directories without links\<close>

lemma noLinks_follow:
  assumes "list_all (\<lambda>e. \<not> isLink (snd e)) es"
  shows "follow n es p = (case map_of es p of None \<Rightarrow> Inl ENOENT | Some nd \<Rightarrow> Inr nd)"
proof (cases "map_of es p")
  case None
  then show ?thesis by (cases n) simp_all
next
  case (Some nd)
  then have "(p, nd) \<in> set es"
    by (rule map_of_SomeD)
  with assms have "\<not> isLink nd"
    by (auto simp: list_all_iff)
  then have "\<forall>t. nd \<noteq> Link t"
    by auto
  with Some show ?thesis
    by (simp add: follow_direct)
qed

lemma noLinks_stat:
  "noLinks w \<Longrightarrow> stat p w = (case map_of (entries w) p of None \<Rightarrow> Inl ENOENT | Some nd \<Rightarrow> Inr nd)"
  by (simp add: stat_def noLinks_def noLinks_follow)

lemma noLinks_renamed:
  assumes "list_all (\<lambda>e. \<not> isLink (snd e)) es" and "\<not> isLink nd"
  shows "list_all (\<lambda>e. \<not> isLink (snd e)) ((new, nd) # filter (\<lambda>e. fst e \<noteq> old \<and> fst e \<noteq> new) es)"
  using assms by (auto simp: list_all_iff)

section \<open>The names of the running tasks\<close>

lemma live_keep:
  assumes "i < length ts" and "taskName t = taskName (ts ! i)"
  shows "live (ts[i := t]) rest = live ts rest"
proof -
  have "taskName (ts[i := t] ! j) = taskName (ts ! j)" if "j < length ts" for j
    using that assms by (cases "j = i") simp_all
  then show ?thesis
    by (auto simp: live_def)
qed

lemma live_Finished:
  assumes "i < length ts" and "taskName (ts ! i) = Some n" and "n \<notin> set rest"
    and "\<forall>j<length ts. taskName (ts ! j) = Some n \<longrightarrow> j = i"
  shows "live (ts[i := Finished]) rest = live ts rest - {n}"
proof (intro set_eqI iffI)
  fix m
  assume "m \<in> live (ts[i := Finished]) rest"
  then consider "m \<in> set rest" | j where "j < length ts" "taskName (ts[i := Finished] ! j) = Some m"
    by (auto simp: live_def)
  then show "m \<in> live ts rest - {n}"
  proof cases
    case 1
    with assms(3) show ?thesis by (auto simp: live_def)
  next
    case 2
    with assms(1) have "j \<noteq> i"
      by auto
    with 2 have "taskName (ts ! j) = Some m"
      by simp
    moreover from this assms(4) 2(1) \<open>j \<noteq> i\<close> have "m \<noteq> n"
      by auto
    ultimately show ?thesis
      using 2(1) by (auto simp: live_def)
  qed
next
  fix m
  assume m: "m \<in> live ts rest - {n}"
  then consider "m \<in> set rest" | j where "j < length ts" "taskName (ts ! j) = Some m"
    by (auto simp: live_def)
  then show "m \<in> live (ts[i := Finished]) rest"
  proof cases
    case 1
    then show ?thesis by (simp add: live_def)
  next
    case 2
    with m assms(2) have "j \<noteq> i"
      by auto
    with 2 have "j < length (ts[i := Finished])" "taskName (ts[i := Finished] ! j) = Some m"
      by simp_all
    then show ?thesis
      unfolding live_def by blast
  qed
qed

lemma live_member: "i < length ts \<Longrightarrow> taskName (ts ! i) = Some n \<Longrightarrow> n \<in> live ts rest"
  by (auto simp: live_def)

lemma taskOK_preserved:
  assumes "taskOK L es t" and "L' \<subseteq> L"
    and "\<And>f. taskName t = Some f \<Longrightarrow> map_of es' f = map_of es f"
    and "\<And>n. n \<notin> L \<Longrightarrow> map_of es n \<noteq> Some Other \<Longrightarrow> map_of es' n \<noteq> Some Other"
  shows "taskOK L' es' t"
  using assms by (cases t) (auto simp: taskOK_def)

lemma orderly_unfold:
  "orderly rest (ts, (w, st)) \<longleftrightarrow>
     noLinks w \<and> writable w \<and> distinct rest \<and> uniqueNames ts rest
     \<and> (\<forall>n\<in>live ts rest. map_of (entries w) n \<noteq> None)
     \<and> (\<forall>i<length ts. taskOK (live ts rest) (entries w) (ts ! i))
     \<and> (\<forall>n nd. map_of (entries w) n = Some nd \<and> pending n nd \<longrightarrow> n \<in> live ts rest)"
  by (simp add: orderly_def uniqueNames_def)

lemma uniqueNames_update:
  assumes u: "uniqueNames ts rest" and i: "i < length ts"
    and t: "taskName t = taskName (ts ! i) \<or> taskName t = None"
  shows "uniqueNames (ts[i := t]) rest"
proof -
  have name: "taskName (ts ! k) = Some m"
    if "k < length ts" "taskName (ts[i := t] ! k) = Some m" for k m
    using that i t by (cases "k = i") auto
  show ?thesis
    unfolding uniqueNames_def
  proof (intro allI impI conjI)
    fix k n
    assume k: "k < length (ts[i := t])" and n: "taskName (ts[i := t] ! k) = Some n"
    from k n have kn: "k < length ts" "taskName (ts ! k) = Some n"
      using name by simp_all
    with u show "n \<notin> set rest"
      by (auto simp: uniqueNames_def)
    fix j
    assume j: "j < length (ts[i := t])" and jn: "taskName (ts[i := t] ! j) = Some n"
    from j jn have "j < length ts" "taskName (ts ! j) = Some n"
      using name by simp_all
    with u kn show "j = k"
      unfolding uniqueNames_def by blast
  qed
qed

lemma noLinks_entries: "entries w' = entries w \<Longrightarrow> noLinks w' = noLinks w"
  by (simp add: noLinks_def)

lemma orderly_keep:
  assumes ord: "orderly rest (ts, (w, st))" and i: "i < length ts"
    and name: "taskName t = taskName (ts ! i)"
    and es: "entries w' = entries w" and wr: "writable w' = writable w"
    and ok: "taskOK (live ts rest) (entries w) t"
  shows "orderly rest (ts[i := t], (w', st'))"
proof -
  have l: "live (ts[i := t]) rest = live ts rest"
    using i name by (rule live_keep)
  have u: "uniqueNames (ts[i := t]) rest"
    using ord i name by (simp add: orderly_unfold uniqueNames_update)
  have tasks: "taskOK (live ts rest) (entries w) (ts[i := t] ! k)" if "k < length ts" for k
    using that ord ok i by (cases "k = i") (simp_all add: orderly_unfold)
  show ?thesis
    unfolding orderly_unfold l es wr noLinks_entries [OF es]
    using ord u tasks by (simp add: orderly_unfold)
qed

lemma orderly_finish:
  assumes ord: "orderly rest (ts, (w, st))" and i: "i < length ts"
    and name: "taskName (ts ! i) = Some n"
    and es: "entries w' = entries w" and wr: "writable w' = writable w"
    and np: "\<And>nd. map_of (entries w) n = Some nd \<Longrightarrow> \<not> pending n nd"
  shows "orderly rest (ts[i := Finished], (w', st'))"
proof -
  from ord have un: "uniqueNames ts rest"
    by (simp add: orderly_unfold)
  with i name have "n \<notin> set rest" "\<forall>j<length ts. taskName (ts ! j) = Some n \<longrightarrow> j = i"
    unfolding uniqueNames_def by blast+
  with i name have l: "live (ts[i := Finished]) rest = live ts rest - {n}"
    by (intro live_Finished)
  have u: "uniqueNames (ts[i := Finished]) rest"
    using un i by (simp add: uniqueNames_update)
  have tasks: "taskOK (live ts rest - {n}) (entries w) (ts[i := Finished] ! k)"
    if "k < length ts" for k
  proof (cases "k = i")
    case True
    with i show ?thesis by (simp add: taskOK_def)
  next
    case False
    from ord that have "taskOK (live ts rest) (entries w) (ts ! k)"
      by (simp add: orderly_unfold)
    then have "taskOK (live ts rest - {n}) (entries w) (ts ! k)"
      by (rule taskOK_preserved) auto
    with False show ?thesis by simp
  qed
  have cover: "m \<in> live ts rest - {n}" if "map_of (entries w) m = Some nd" "pending m nd" for m nd
  proof -
    from ord that have "m \<in> live ts rest"
      unfolding orderly_unfold by blast
    moreover from that np have "m \<noteq> n"
      by auto
    ultimately show ?thesis by simp
  qed
  show ?thesis
    unfolding orderly_unfold l es wr noLinks_entries [OF es]
    using ord u tasks cover by (simp add: orderly_unfold)
qed

lemma pending_renamed:
  assumes "getFileExtension f \<in> set imageExtensions" and "sniff b = Some a"
  shows "\<not> pending (replaceExtension f a) (File b r)"
proof -
  from assms have "getFileExtension (replaceExtension f a) = a"
    by (rule new_name_extension)
  with assms(2) show ?thesis
    by (simp add: pending_def needsRename_irrefl)
qed

lemma orderly_rename:
  assumes ord: "orderly rest (ts, (w, st))" and i: "i < length ts"
    and t: "ts ! i = AwaitRename f c a n"
    and es: "entries w' =
               (n, File b True) # filter (\<lambda>e. fst e \<noteq> f \<and> fst e \<noteq> n) (entries w)"
    and b: "map_of (entries w) f = Some (File b True)" "sniff b = Some a"
    and wr: "writable w' = writable w"
  shows "orderly rest (ts[i := Finished], (w', st'))"
proof -
  from ord have un: "uniqueNames ts rest"
    by (simp add: orderly_unfold)
  from t have name: "taskName (ts ! i) = Some f"
    by simp
  with un i have "f \<notin> set rest" "\<forall>j<length ts. taskName (ts ! j) = Some f \<longrightarrow> j = i"
    unfolding uniqueNames_def by blast+
  with i name have l: "live (ts[i := Finished]) rest = live ts rest - {f}"
    by (intro live_Finished)
  have u: "uniqueNames (ts[i := Finished]) rest"
    using un i by (simp add: uniqueNames_update)
  from ord i have "taskOK (live ts rest) (entries w) (ts ! i)"
    by (simp add: orderly_unfold)
  with t have ok: "c = getFileExtension f" "c \<in> set imageExtensions" "n = replaceExtension f a"
    "n \<notin> live ts rest"
    by (auto simp: taskOK_def)
  from i name have fl: "f \<in> live ts rest"
    by (rule live_member)
  with ok have nf: "n \<noteq> f"
    by auto
  have look: "map_of (entries w') m =
      (if m = n then Some (File b True) else if m = f then None else map_of (entries w) m)" for m
    unfolding es by (simp add: map_of_filter_two)
  have links: "noLinks w'"
    using ord unfolding noLinks_def es orderly_unfold
    by (intro noLinks_renamed) simp_all
  have present: "map_of (entries w') m \<noteq> None" if "m \<in> live ts rest - {f}" for m
    using that ord ok(4) by (auto simp: look orderly_unfold)
  have tasks: "taskOK (live ts rest - {f}) (entries w') (ts[i := Finished] ! k)"
    if "k < length ts" for k
  proof (cases "k = i")
    case True
    with i show ?thesis by (simp add: taskOK_def)
  next
    case False
    from ord that have tk: "taskOK (live ts rest) (entries w) (ts ! k)"
      by (simp add: orderly_unfold)
    have "taskOK (live ts rest - {f}) (entries w') (ts ! k)"
      using tk
    proof (rule taskOK_preserved)
      show "live ts rest - {f} \<subseteq> live ts rest"
        by auto
    next
      fix g
      assume g: "taskName (ts ! k) = Some g"
      with that have gl: "g \<in> live ts rest"
        by (intro live_member)
      with ok(4) have "g \<noteq> n"
        by auto
      moreover from g un that i name False have "g \<noteq> f"
        unfolding uniqueNames_def by blast
      ultimately show "map_of (entries w') g = map_of (entries w) g"
        by (simp add: look)
    next
      fix m
      assume "m \<notin> live ts rest" "map_of (entries w) m \<noteq> Some Other"
      then show "map_of (entries w') m \<noteq> Some Other"
        by (simp add: look)
    qed
    with False show ?thesis by simp
  qed
  have cover: "m \<in> live ts rest - {f}" if "map_of (entries w') m = Some nd" "pending m nd" for m nd
  proof -
    have "m \<noteq> n"
    proof
      assume "m = n"
      with that(1) have "nd = File b True"
        by (simp add: look)
      with that(2) \<open>m = n\<close> ok b(2) pending_renamed [of f b a True] show False
        by simp
    qed
    moreover from that(1) nf have mf: "m \<noteq> f"
      by (auto simp: look split: if_splits)
    ultimately have "map_of (entries w) m = Some nd"
      using that(1) by (simp add: look)
    with ord that(2) have "m \<in> live ts rest"
      unfolding orderly_unfold by blast
    with mf show ?thesis by simp
  qed
  show ?thesis
    unfolding orderly_unfold l wr
    using ord u tasks cover present links by (simp add: orderly_unfold)
qed

lemma noLinks_stat_Inr:
  "noLinks w \<Longrightarrow> stat p w = Inr nd \<longleftrightarrow> map_of (entries w) p = Some nd"
  by (simp add: noLinks_stat split: option.splits)

lemma noLinks_stat_Inl:
  "noLinks w \<Longrightarrow> stat p w = Inl e \<Longrightarrow> map_of (entries w) p = None"
  by (simp add: noLinks_stat split: option.splits)

lemma detect_entries [simp]: "entries (snd (detectImageFormat f w)) = entries w"
  by (simp add: detectImageFormat_def readFile_def emit_def Let_def
      split: sum.splits node.splits)

lemma detect_writable [simp]: "writable (snd (detectImageFormat f w)) = writable w"
  by (simp add: detectImageFormat_def readFile_def emit_def Let_def
      split: sum.splits node.splits)

lemma detect_Some:
  assumes "detectImageFormat f w = (Some a, w1)"
  shows "\<exists>b. stat f w = Inr (File b True) \<and> sniff b = Some a"
  using assms
  by (auto simp: detectImageFormat_def readFile_def emit_def Let_def
      split: sum.splits node.splits if_splits)

lemma detect_None:
  assumes "detectImageFormat f w = (None, w1)" and "stat f w = Inr (File b True)"
  shows "sniff b = None"
  using assms
  by (auto simp: detectImageFormat_def readFile_def emit_def Let_def
      split: sum.splits node.splits if_splits)

lemma step_orderly:
  assumes ord: "orderly rest (ts, (w, st))" and i: "i < length ts"
    and step: "step (ts ! i) (w, st) = (t', (w', st'))"
    and q: "\<not> list_ex isCollision (console w')"
  shows "orderly rest (ts[i := t'], (w', st'))"
proof -
  from ord have links: "noLinks w" and wr: "writable w"
    by (simp_all add: orderly_unfold)
  from ord i have ok: "taskOK (live ts rest) (entries w) (ts ! i)"
    by (simp add: orderly_unfold)
  show ?thesis
  proof (cases "ts ! i")
    case (AwaitStat f)
    then have name: "taskName (ts ! i) = Some f"
      by simp
    show ?thesis
    proof (cases "t' = Finished")
      case True
      have es: "entries w' = entries w" "writable w' = writable w"
        using step AwaitStat
        by (auto simp: emit_def Let_def split: sum.splits if_splits)
      have "\<not> pending f nd" if "map_of (entries w) f = Some nd" for nd
      proof -
        from that links have "stat f w = Inr nd"
          by (simp add: noLinks_stat_Inr)
        with step AwaitStat True show ?thesis
          by (auto simp: pending_def isFile_def Let_def split: if_splits node.splits)
      qed
      with ord i name es show ?thesis
        unfolding True by (intro orderly_finish)
    next
      case False
      with step AwaitStat have t': "t' = AwaitDetect f (getFileExtension f)"
        and rec: "getFileExtension f \<in> set imageExtensions"
        and es: "entries w' = entries w" "writable w' = writable w"
        by (auto simp: emit_def Let_def split: sum.splits if_splits)
      from t' name have "taskName t' = taskName (ts ! i)"
        by simp
      moreover from t' rec have "taskOK (live ts rest) (entries w) t'"
        by (simp add: taskOK_def)
      ultimately show ?thesis
        using ord i es by (intro orderly_keep)
    qed
  next
    case (AwaitDetect f c)
    then have name: "taskName (ts ! i) = Some f"
      by simp
    from ok AwaitDetect have c: "c = getFileExtension f" "c \<in> set imageExtensions"
      by (auto simp: taskOK_def)
    obtain r w1 where d: "detectImageFormat f w = (r, w1)"
      by (cases "detectImageFormat f w")
    then have w1: "entries w1 = entries w" "writable w1 = writable w"
      using detect_entries [of f w] detect_writable [of f w] by simp_all
    show ?thesis
    proof (cases r)
      case None
      with step AwaitDetect d w1 have t': "t' = Finished"
        and es: "entries w' = entries w" "writable w' = writable w"
        by (auto simp: emit_def)
      have "\<not> pending f nd" if "map_of (entries w) f = Some nd" for nd
      proof (cases "\<exists>b. nd = File b True")
        case True
        then obtain b where "nd = File b True" ..
        moreover from this that links have "stat f w = Inr (File b True)"
          by (simp add: noLinks_stat_Inr)
        with d None have "sniff b = None"
          by (intro detect_None) simp_all
        ultimately show ?thesis
          by (simp add: pending_def)
      next
        case False
        then show ?thesis
          by (cases nd) (auto simp: pending_def)
      qed
      with ord i name es show ?thesis
        unfolding t' by (intro orderly_finish)
    next
      case (Some a)
      with d obtain b where "stat f w = Inr (File b True)" and b: "sniff b = Some a"
        using detect_Some by blast
      with links have fb: "map_of (entries w) f = Some (File b True)"
        by (simp add: noLinks_stat_Inr)
      show ?thesis
      proof (cases "needsRename c a")
        case True
        with step AwaitDetect d Some w1
        have t': "t' = AwaitTargetStat f c a (replaceExtension f a)"
          and es: "entries w' = entries w" "writable w' = writable w"
          by (auto simp: Let_def)
        from t' name have "taskName t' = taskName (ts ! i)"
          by simp
        moreover from t' c True fb b have "taskOK (live ts rest) (entries w) t'"
          by (simp add: taskOK_def)
        ultimately show ?thesis
          using ord i es by (intro orderly_keep)
      next
        case False
        with step AwaitDetect d Some w1 have t': "t' = Finished"
          and es: "entries w' = entries w" "writable w' = writable w"
          by (auto simp: emit_def)
        have "\<not> pending f nd" if "map_of (entries w) f = Some nd" for nd
          using that fb b False c by (auto simp: pending_def)
        with ord i name es show ?thesis
          unfolding t' by (intro orderly_finish)
      qed
    qed
  next
    case (AwaitTargetStat f c a n)
    then have name: "taskName (ts ! i) = Some f"
      by simp
    show ?thesis
    proof (cases "stat n w")
      case (Inr nd)
      with step AwaitTargetStat have "console w' = console w @ [TargetExists f n]"
        by (auto simp: emit_def)
      with q show ?thesis
        by simp
    next
      case (Inl e)
      with step AwaitTargetStat have t': "t' = AwaitRename f c a n"
        and es: "entries w' = entries w" "writable w' = writable w"
        by auto
      from Inl links have absent: "map_of (entries w) n = None"
        by (rule noLinks_stat_Inl [rotated])
      with ord have "n \<notin> live ts rest"
        unfolding orderly_unfold by blast
      with ok AwaitTargetStat absent t' have "taskOK (live ts rest) (entries w) t'"
        by (auto simp: taskOK_def)
      moreover from t' name have "taskName t' = taskName (ts ! i)"
        by simp
      ultimately show ?thesis
        using ord i es by (intro orderly_keep)
    qed
  next
    case (AwaitRename f c a n)
    with ok obtain b where fb: "map_of (entries w) f = Some (File b True)" "sniff b = Some a"
      and n: "map_of (entries w) n \<noteq> Some Other"
      by (auto simp: taskOK_def)
    with wr have "rename f n w =
        Inr (w\<lparr>entries := (n, File b True) # filter (\<lambda>e. fst e \<noteq> f \<and> fst e \<noteq> n) (entries w)\<rparr>)"
      by (simp add: rename_def)
    with step AwaitRename have t': "t' = Finished"
      and es: "entries w' = (n, File b True) # filter (\<lambda>e. fst e \<noteq> f \<and> fst e \<noteq> n) (entries w)"
      and wr': "writable w' = writable w"
      by (auto simp: emit_def)
    from ord i AwaitRename es fb wr' show ?thesis
      unfolding t' by (rule orderly_rename)
  next
    case Finished
    with step have "t' = Finished" "w' = w" "st' = st"
      by simp_all
    moreover from Finished i have "ts[i := Finished] = ts"
      by (metis list_update_id)
    ultimately show ?thesis
      using ord by simp
  qed
qed

section \<open>A first run without collision\<close>

lemma step_loud: "loud s \<Longrightarrow> loud (snd (step t s))"
proof (cases s rule: prod.exhaust)
  case (Pair w st)
  assume "loud s"
  with Pair show ?thesis
    by (cases t)
      (auto simp: loud_def emit_def Let_def detectImageFormat_def readFile_def rename_def
        split: sum.splits if_splits node.splits option.splits prod.splits)
qed

lemma stepAt_quiet: "quiet (stepAt i c) \<Longrightarrow> quiet c"
proof (cases c rule: prod.exhaust)
  case (Pair ts s)
  assume q: "quiet (stepAt i c)"
  show ?thesis
  proof (cases "i < length ts")
    case True
    obtain t s' where st: "step (ts ! i) s = (t, s')"
      by (cases "step (ts ! i) s")
    with q Pair True have "\<not> loud s'"
      by (simp add: quiet_def loud_def)
    with step_loud [of s "ts ! i"] st have "\<not> loud s"
      by auto
    with Pair show ?thesis
      by (simp add: quiet_def loud_def)
  next
    case False
    with q Pair show ?thesis by simp
  qed
qed

lemma stepAt_orderly:
  assumes "quiet c \<longrightarrow> orderly rest c"
  shows "quiet (stepAt i c) \<longrightarrow> orderly rest (stepAt i c)"
proof
  assume q: "quiet (stepAt i c)"
  then have "quiet c"
    by (rule stepAt_quiet)
  with assms have ord: "orderly rest c"
    by simp
  obtain ts w st where c: "c = (ts, (w, st))"
    by (metis prod.exhaust)
  show "orderly rest (stepAt i c)"
  proof (cases "i < length ts")
    case True
    obtain t' w' st' where st: "step (ts ! i) (w, st) = (t', (w', st'))"
      by (metis prod.exhaust)
    with q c True have "\<not> list_ex isCollision (console w')"
      by (simp add: quiet_def)
    with ord c True st have "orderly rest (ts[i := t'], (w', st'))"
      by (intro step_orderly) simp_all
    with c True st show ?thesis by simp
  next
    case False
    with ord c show ?thesis by simp
  qed
qed

lemma live_start: "live (map AwaitStat batch) rest = set batch \<union> set rest"
proof -
  have "(\<exists>i<length (map AwaitStat batch). taskName (map AwaitStat batch ! i) = Some n)
          \<longleftrightarrow> n \<in> set batch" for n
  proof
    assume "\<exists>i<length (map AwaitStat batch). taskName (map AwaitStat batch ! i) = Some n"
    then obtain i where "i < length batch" "taskName (map AwaitStat batch ! i) = Some n"
      by auto
    then show "n \<in> set batch"
      by auto
  next
    assume "n \<in> set batch"
    then obtain i where i: "i < length batch" "batch ! i = n"
      by (auto simp: in_set_conv_nth)
    then have "i < length (map AwaitStat batch)" "taskName (map AwaitStat batch ! i) = Some n"
      by simp_all
    then show "\<exists>i<length (map AwaitStat batch). taskName (map AwaitStat batch ! i) = Some n"
      by blast
  qed
  then show ?thesis
    unfolding live_def by blast
qed

lemma uniqueNames_start:
  assumes "distinct (batch @ rest)"
  shows "uniqueNames (map AwaitStat batch) rest"
  unfolding uniqueNames_def
proof (intro allI impI conjI)
  fix i n
  assume i: "i < length (map AwaitStat batch)" and n: "taskName (map AwaitStat batch ! i) = Some n"
  then have ni: "n = batch ! i" "i < length batch"
    by simp_all
  then have "n \<in> set batch"
    by simp
  with assms show "n \<notin> set rest"
    by auto
  fix j
  assume "j < length (map AwaitStat batch)" and "taskName (map AwaitStat batch ! j) = Some n"
  then have "n = batch ! j" "j < length batch"
    by simp_all
  with ni assms show "j = i"
    by (simp add: nth_eq_iff_index_eq)
qed

lemma live_end:
  assumes "\<forall>j<length ts. ts ! j = Finished"
  shows "live ts rest = set rest"
  using assms by (auto simp: live_def)

lemma batch_tidy:
  assumes t: "tidy (batch @ rest) w"
    and q: "\<not> loud (processBatch schedule batch (w, st))"
  shows "tidy rest (fst (processBatch schedule batch (w, st)))"
proof -
  let ?c0 = "(map AwaitStat batch, (w, st))"
  let ?c1 = "runBatch schedule ?c0"
  from t have "orderly rest ?c0"
    by (auto simp: tidy_def orderly_unfold uniqueNames_start live_start taskOK_def)
  then have "quiet ?c0 \<longrightarrow> orderly rest ?c0"
    by simp
  then have "quiet ?c1 \<longrightarrow> orderly rest ?c1"
    by (rule runBatch_invariant) (rule stepAt_orderly)
  moreover from q have "quiet ?c1"
    by (simp add: quiet_def loud_def processBatch_def)
  ultimately have ord: "orderly rest ?c1"
    by simp
  obtain ts w1 st1 where c1: "?c1 = (ts, (w1, st1))"
    by (metis prod.exhaust)
  have "\<forall>j<length (fst ?c1). fst ?c1 ! j = Finished"
    using runBatch_finished [of schedule ?c0] by simp
  with c1 have "live ts rest = set rest"
    by (intro live_end) simp
  with ord c1 have "tidy rest w1"
    by (simp add: orderly_unfold tidy_def)
  with c1 show ?thesis
    by (simp add: processBatch_def)
qed

lemma batchLoop_loud: "loud s \<Longrightarrow> loud (batchLoop schedules i files s)"
  by (rule run_invariant) (simp_all add: step_loud)

lemma loop_tidy:
  assumes "tidy (drop i files) (fst s)" and "\<not> loud (batchLoop schedules i files s)"
  shows "tidy [] (fst (batchLoop schedules i files s))"
  using assms
proof (induction schedules i files s rule: batchLoop.induct)
  case (1 schedules i files s)
  show ?case
  proof (cases "i < length files")
    case True
    let ?batch = "slice files i (i + batchSize)"
    let ?s = "processBatch (schedules i) ?batch s"
    have unfold: "batchLoop schedules i files s = batchLoop schedules (i + batchSize) files ?s"
      using True by (subst batchLoop.simps) simp
    obtain w st where s: "s = (w, st)"
      by (cases s)
    have split: "?batch @ drop (i + batchSize) files = drop i files"
      by (simp add: slice_def add.commute [of i batchSize] flip: drop_drop)
    have "loud (batchLoop schedules (i + batchSize) files ?s)" if "loud ?s"
      using that by (rule batchLoop_loud)
    with "1.prems"(2) unfold have "\<not> loud ?s"
      by auto
    with "1.prems"(1) s split have "tidy (drop (i + batchSize) files) (fst ?s)"
      by (intro batch_tidy [of ?batch "drop (i + batchSize) files" w "schedules i" st,
            unfolded s [symmetric]]) simp_all
    moreover from "1.prems"(2) unfold
    have "\<not> loud (batchLoop schedules (i + batchSize) files ?s)"
      by simp
    ultimately have "tidy [] (fst (batchLoop schedules (i + batchSize) files ?s))"
      using True by (intro "1.IH")
    with unfold show ?thesis by simp
  next
    case False
    then have "batchLoop schedules i files s = s"
      by (subst batchLoop.simps) simp
    moreover from False have "drop i files = []"
      by simp
    ultimately show ?thesis
      using "1.prems"(1) by simp
  qed
qed

section \<open>A run on a directory where nothing is left to rename\<close>

lemma calm_update: "list_all calm ts \<Longrightarrow> calm t \<Longrightarrow> list_all calm (ts[i := t])"
  using set_update_subset_insert [of ts i t] by (auto simp: list_all_iff)

lemma step_readonly:
  assumes "\<not> writable w" and "step t (w, st) = (t', (w', st'))"
  shows "entries w' = entries w \<and> writable w' = writable w \<and> renamed st' = renamed st"
proof (cases t)
  case (AwaitDetect f c)
  obtain r w1 where d: "detectImageFormat f w = (r, w1)"
    by (cases "detectImageFormat f w")
  then have "entries w1 = entries w" "writable w1 = writable w"
    using detect_entries [of f w] detect_writable [of f w] by simp_all
  with assms AwaitDetect d show ?thesis
    by (cases r) (auto simp: emit_def Let_def split: if_splits)
qed (use assms in \<open>auto simp: emit_def Let_def rename_def split: sum.splits if_splits\<close>)

lemma step_calm:
  assumes links: "list_all (\<lambda>e. \<not> isLink (snd e)) (entries w)"
    and none: "\<forall>n nd. map_of (entries w) n = Some nd \<longrightarrow> \<not> pending n nd"
    and t: "calm t" and step: "step t (w, st) = (t', (w', st'))"
  shows "entries w' = entries w \<and> writable w' = writable w \<and> renamed st' = renamed st \<and> calm t'"
proof (cases t)
  case (AwaitStat f)
  with step show ?thesis
    by (auto simp: emit_def Let_def split: sum.splits if_splits)
next
  case (AwaitDetect f c)
  with t have c: "c = getFileExtension f" "c \<in> set imageExtensions"
    by auto
  obtain r w1 where d: "detectImageFormat f w = (r, w1)"
    by (cases "detectImageFormat f w")
  then have w1: "entries w1 = entries w" "writable w1 = writable w"
    using detect_entries [of f w] detect_writable [of f w] by simp_all
  show ?thesis
  proof (cases r)
    case None
    with step AwaitDetect d w1 show ?thesis
      by (auto simp: emit_def)
  next
    case (Some a)
    with d obtain b where "stat f w = Inr (File b True)" and b: "sniff b = Some a"
      using detect_Some by blast
    with links have "map_of (entries w) f = Some (File b True)"
      by (simp add: noLinks_stat_Inr noLinks_def)
    with none have "\<not> pending f (File b True)"
      by blast
    with b c have "\<not> needsRename c a"
      by (simp add: pending_def)
    with step AwaitDetect d Some w1 show ?thesis
      by (auto simp: emit_def)
  qed
qed (use t step in auto)

lemma stepAt_still:
  assumes fixed: "\<not> wr \<or> (list_all (\<lambda>e. \<not> isLink (snd e)) es
                    \<and> (\<forall>n nd. map_of es n = Some nd \<longrightarrow> \<not> pending n nd))"
    and s: "still es wr r c"
  shows "still es wr r (stepAt i c)"
proof -
  obtain ts w st where c: "c = (ts, (w, st))"
    by (metis prod.exhaust)
  show ?thesis
  proof (cases "i < length ts")
    case True
    obtain t' w' st' where st: "step (ts ! i) (w, st) = (t', (w', st'))"
      by (metis prod.exhaust)
    show ?thesis
    proof (cases wr)
      case False
      with s c have "\<not> writable w"
        by (simp add: still_def)
      from step_readonly [OF this st] s c False True st show ?thesis
        by (simp add: still_def)
    next
      case wr: True
      with s c True have "calm (ts ! i)" and all: "list_all calm ts"
        by (simp_all add: still_def list_all_length)
      moreover from s c fixed wr have "list_all (\<lambda>e. \<not> isLink (snd e)) (entries w)"
        "\<forall>n nd. map_of (entries w) n = Some nd \<longrightarrow> \<not> pending n nd"
        by (simp_all add: still_def)
      ultimately have "entries w' = entries w \<and> writable w' = writable w
          \<and> renamed st' = renamed st \<and> calm t'"
        using st by (intro step_calm [of w "ts ! i" st t' w' st']) simp_all
      with s c True st all show ?thesis
        by (simp add: still_def calm_update)
    qed
  next
    case False
    with s c show ?thesis by simp
  qed
qed

lemma batchLoop_still:
  assumes fixed: "\<not> writable w \<or> (noLinks w
                    \<and> (\<forall>n nd. map_of (entries w) n = Some nd \<longrightarrow> \<not> pending n nd))"
  shows "entries (fst (batchLoop schedules i files (w, st))) = entries w
       \<and> renamed (snd (batchLoop schedules i files (w, st))) = renamed st"
proof -
  let ?Q = "\<lambda>s :: world \<times> stats. entries (fst s) = entries w \<and> writable (fst s) = writable w
                \<and> renamed (snd s) = renamed st"
  have "?Q (batchLoop schedules i files (w, st))"
  proof (rule batchLoop_invariant)
    show "?Q (w, st)"
      by simp
  next
    fix schedule batch s
    assume Q: "?Q s"
    let ?c0 = "(map AwaitStat batch, s)"
    from Q have "still (entries w) (writable w) (renamed st) ?c0"
      by (cases s) (simp add: still_def list_all_iff)
    then have "still (entries w) (writable w) (renamed st) (runBatch schedule ?c0)"
    proof (rule runBatch_invariant)
      fix j c
      assume "still (entries w) (writable w) (renamed st) c"
      with fixed show "still (entries w) (writable w) (renamed st) (stepAt j c)"
        by (intro stepAt_still) (simp_all add: noLinks_def)
    qed
    then show "?Q (processBatch schedule batch s)"
      by (cases "runBatch schedule ?c0" rule: prod.exhaust)
        (auto simp: still_def processBatch_def)
  qed
  then show ?thesis by simp
qed

text \<open>
  C3, as stated, fails: a rename that the first run gives up because its target exists can
  succeed in the second run, once the first run has moved the target away. Here \<open>c.jpg\<close>
  holds PNG bytes and \<open>c.png\<close> holds GIF bytes, in different batches: the first run (no
  error) leaves \<open>c.jpg\<close> in place, because \<open>c.png\<close> exists, and later renames \<open>c.png\<close>
  to \<open>c.gif\<close>; the second run renames \<open>c.jpg\<close> to \<open>c.png\<close>. Links are a second
  way: \<open>stat\<close> follows them, so a link \<open>x.png\<close> to \<open>y.gif\<close> fails \<open>stat\<close> in the first
  run, which creates \<open>y.gif\<close> (no warning), and is renamed in the second run.
\<close>

theorem second_run_counterexample:
  "slice (map fst (entries twoBatches)) 0 batchSize
     = [''c.jpg'', ''n1.txt'', ''n2.txt'', ''n3.txt'', ''n4.txt'', ''n5.txt'', ''n6.txt'', ''n7.txt'',
           ''n8.txt'', ''n9.txt'']
   \<and> slice (map fst (entries twoBatches)) batchSize (batchSize + batchSize) = [''c.png'']
   \<and> snd (processDirectory inStep twoBatches) = \<lparr>processed = 2, renamed = 1, errors = 0\<rparr>
   \<and> renamed (snd (processDirectory inStep (fst (processDirectory inStep twoBatches)))) = 1
   \<and> snd (processDirectory inStep lateLink) = \<lparr>processed = 1, renamed = 1, errors = 1\<rparr>
   \<and> \<not> list_ex isCollision (console (fst (processDirectory inStep lateLink)))
   \<and> snd (processDirectory inStep (fst (processDirectory inStep lateLink)))
       = \<lparr>processed = 2, renamed = 1, errors = 0\<rparr>"
  by code_simp

lemma step_flags:
  "listable (fst (snd (step t s))) = listable (fst s)
   \<and> writable (fst (snd (step t s))) = writable (fst s)"
proof (cases s rule: prod.exhaust)
  case (Pair w st)
  then show ?thesis
    by (cases t)
      (auto simp: emit_def Let_def detectImageFormat_def readFile_def rename_def
        split: sum.splits if_splits node.splits option.splits prod.splits)
qed

lemma batchLoop_flags:
  "listable (fst (batchLoop schedules i files s)) = listable (fst s)
   \<and> writable (fst (batchLoop schedules i files s)) = writable (fst s)"
proof -
  let ?Q = "\<lambda>s' :: world \<times> stats. listable (fst s') = listable (fst s)
              \<and> writable (fst s') = writable (fst s)"
  have "?Q (batchLoop schedules i files s)"
    by (rule run_invariant) (simp_all add: step_flags)
  then show ?thesis .
qed

lemma tidy_listing:
  assumes "noLinks w" and "writable w" and "distinct (map fst (entries w))"
  shows "tidy (drop 0 (map fst (entries w))) w"
  using assms
  by (auto simp: tidy_def map_of_eq_None_iff dest: map_of_SomeD intro: rev_image_eqI)

text \<open>
  C3, amended: in a directory without symbolic links (each name listed once), when the
  first run gave up no rename because of an existing target (it printed no warning of line
  117), a second run on the directory it leaves performs no rename and changes no entry,
  however the callbacks are interleaved in either run. If moreover the directory can be
  listed and renamed in, then after the first run the rename condition is false for every
  readable file with a recognised extension and a detected format.
\<close>

theorem second_run_renames_nothing:
  assumes "noLinks w" and "distinct (map fst (entries w))"
    and "\<not> list_ex isCollision (console (fst (processDirectory schedules w)))"
  shows "renamed (snd (processDirectory schedules' (fst (processDirectory schedules w)))) = 0
     \<and> entries (fst (processDirectory schedules' (fst (processDirectory schedules w))))
         = entries (fst (processDirectory schedules w))
     \<and> (listable w \<and> writable w \<longrightarrow>
          (\<forall>name nd. map_of (entries (fst (processDirectory schedules w))) name = Some nd \<longrightarrow>
             \<not> pending name nd))"
proof (cases "listable w")
  case False
  then show ?thesis
    by (simp add: processDirectory_unlistable emit_def)
next
  case True
  let ?zero = "\<lparr>processed = 0, renamed = 0, errors = 0\<rparr>"
  let ?run1 = "batchLoop schedules 0 (map fst (entries w)) (w, ?zero)"
  let ?w1 = "fst ?run1"
  from True have first: "processDirectory schedules w = ?run1"
    by (simp add: processDirectory_listable)
  have flags: "listable ?w1" "writable ?w1 = writable w"
    using True batchLoop_flags [of schedules 0 "map fst (entries w)" "(w, ?zero)"] by simp_all
  then have second: "processDirectory schedules' ?w1
      = batchLoop schedules' 0 (map fst (entries ?w1)) (?w1, ?zero)"
    by (simp add: processDirectory_listable)
  have settled: "tidy [] ?w1" if "writable w"
  proof (rule loop_tidy)
    from assms(1) that assms(2) show "tidy (drop 0 (map fst (entries w))) (fst (w, ?zero))"
      unfolding fst_conv by (rule tidy_listing)
    from assms(3) show "\<not> loud ?run1"
      by (simp add: loud_def first)
  qed
  then have "\<not> writable ?w1 \<or> (noLinks ?w1
      \<and> (\<forall>n nd. map_of (entries ?w1) n = Some nd \<longrightarrow> \<not> pending n nd))"
    using flags by (cases "writable w") (simp_all add: tidy_def)
  from batchLoop_still [OF this, of schedules' 0 "map fst (entries ?w1)" ?zero]
  have "renamed (snd (processDirectory schedules' (fst (processDirectory schedules w)))) = 0
     \<and> entries (fst (processDirectory schedules' (fst (processDirectory schedules w))))
         = entries (fst (processDirectory schedules w))"
    by (simp add: first second)
  moreover have "\<forall>name nd. map_of (entries (fst (processDirectory schedules w))) name = Some nd \<longrightarrow>
      \<not> pending name nd" if "writable w"
    using settled [OF that] by (simp add: first tidy_def)
  ultimately show ?thesis
    by blast
qed

theorem second_run_renames_nothing_witness:
  "noLinks wrongJpg \<and> distinct (map fst (entries wrongJpg))
   \<and> \<not> list_ex isCollision (console (fst (processDirectory inStep wrongJpg)))
   \<and> renamed (snd (processDirectory inStep wrongJpg)) = 1
   \<and> renamed (snd (processDirectory inStep (fst (processDirectory inStep wrongJpg)))) = 0"
proof -
  have "noLinks wrongJpg" "distinct (map fst (entries wrongJpg))"
    "\<not> list_ex isCollision (console (fst (processDirectory inStep wrongJpg)))"
    "renamed (snd (processDirectory inStep wrongJpg)) = 1"
    by code_simp+
  with second_run_renames_nothing [of wrongJpg inStep inStep] show ?thesis
    by simp
qed

end
